theory Spec2Isabelle
  imports Complex_Main "HOL-Library.AList" "HOL-Library.Log_Nat"
begin

section \<open>Preference memory of a user profile (user\_profile/user\_profile.py)\<close>

text \<open>
  The class \<open>UserProfile\<close> holds \<open>memory\<close>, a dict from aspect to a dict from value
  to an entry \<open>{"confidence", "evidence", "last_seen"}\<close>. Python dicts keep insertion
  order, which \<open>get_memory_view\<close> exposes, so a dict is an association list:
  \<open>map_of\<close> is the lookup, \<open>AList.update\<close> the item assignment (in place for an
  existing key, appended for a new one) and \<open>AList.delete\<close> the \<open>del\<close> statement.

  Confidences are Python floats: an entry holds the real number that the float
  denotes. The arithmetic of \<open>reinforce\<close> is binary64, every operation rounded to the
  nearest double with ties to even; the product of \<open>weaken\<close> is taken exactly (its
  rounding is left out), and \<open>max\<close> is exact anyway. \<open>evidence\<close> is a Python int;
  \<open>last_seen\<close> is a reading of \<open>datetime.now\<close>, an abstract natural number that
  the caller of an operation supplies. Strings are ASCII strings, and the value of a key
  of a payload item or of an action record is a string whenever the key is there.

  The modules \<open>config.aspects\<close> and \<open>config.confidence\<close> are not part of the sources:
  the list \<open>ASPECTS\<close> and the dict \<open>STRENGTH_TO_CONF\<close> are parameters of every
  operation that reads them.
\<close>

subsection \<open>Data\<close>

record entry =
  confidence :: real
  evidence :: int
  last_seen :: nat

type_synonym aspect_memory = "(string \<times> entry) list"
type_synonym user_memory = "(string \<times> aspect_memory) list"

text \<open>An item of an extraction payload; a key the dict does not have is \<open>None\<close>.\<close>

record pref =
  pref_aspect :: "string option"
  pref_value :: "string option"
  pref_strength :: "string option"

record extracted =
  hard_preferences :: "pref list option"
  soft_preferences :: "pref list option"

text \<open>An action record; \<open>act.get(key)\<close> of a missing key is \<open>None\<close>.\<close>

record action_rec =
  act_action :: "string option"
  act_aspect :: "string option"
  act_value :: "string option"
  act_target :: "string option"
  act_strength :: "string option"

datatype error = KeyError string | ZeroDivisionError | OverflowError | NotFinite

text \<open>
  An operation either returns normally with the memory it leaves (\<open>Inr\<close>) or raises;
  the memory is mutated in place, so a raise also leaves a memory behind (\<open>Inl\<close>).
  \<open>NotFinite\<close> is not an exception of the program: it marks a float operation whose
  result is \<open>inf\<close>, which an entry of this model cannot hold, and the model stops there.
\<close>

type_synonym 'a outcome = "(error \<times> 'a) + 'a"

definition final_memory :: "'a outcome \<Rightarrow> 'a" where
  "final_memory r = (case r of Inl (err, m) \<Rightarrow> m | Inr m \<Rightarrow> m)"

subsection \<open>Strings and dicts\<close>

text \<open>\<open>str.lower\<close> on ASCII: the 26 capital letters are replaced, the rest is kept.\<close>

definition lower_char :: "char \<Rightarrow> char" where
  "lower_char c =
     (case map_of (zip ''ABCDEFGHIJKLMNOPQRSTUVWXYZ'' ''abcdefghijklmnopqrstuvwxyz'') c of
        None \<Rightarrow> c
      | Some d \<Rightarrow> d)"

definition lower :: "string \<Rightarrow> string" where
  "lower s = map lower_char s"

text \<open>\<open>not x\<close> for an optional string: \<open>None\<close> and the empty string are falsy.\<close>

definition falsy :: "string option \<Rightarrow> bool" where
  "falsy x = (case x of None \<Rightarrow> True | Some s \<Rightarrow> s = [])"

text \<open>\<open>d.setdefault(k, v)\<close>: a missing key is appended, an existing one is kept.\<close>

definition setdefault :: "'k \<Rightarrow> 'v \<Rightarrow> ('k \<times> 'v) list \<Rightarrow> ('k \<times> 'v) list" where
  "setdefault k v d = (case map_of d k of None \<Rightarrow> d @ [(k, v)] | Some _ \<Rightarrow> d)"

text \<open>The bucket of an aspect, and the entry of a value of an aspect.\<close>

definition bucket :: "user_memory \<Rightarrow> string \<Rightarrow> aspect_memory" where
  "bucket m a = (case map_of m a of None \<Rightarrow> [] | Some b \<Rightarrow> b)"

definition lookup :: "user_memory \<Rightarrow> string \<Rightarrow> string \<Rightarrow> entry option" where
  "lookup m a k = (case map_of m a of None \<Rightarrow> None | Some b \<Rightarrow> map_of b k)"

subsection \<open>Queries\<close>

definition has_memory :: "user_memory \<Rightarrow> bool" where
  "has_memory m = (m \<noteq> [])"

definition get_memory_view :: "user_memory \<Rightarrow> (string \<times> string list) list" where
  "get_memory_view m = map (\<lambda>(a, b). (a, map fst b)) (filter (\<lambda>(a, b). b \<noteq> []) m)"

subsection \<open>Ingestion\<close>

text \<open>
  One iteration of the inner loop of \<open>ingest_extracted_preferences\<close>. The three
  subscripts raise \<open>KeyError\<close> on a missing key; \<open>setdefault\<close> runs before the
  right-hand side of the assignment is evaluated, so an unknown strength label raises
  after the bucket was created. \<open>now\<close> is the clock reading of this iteration.
\<close>

definition ingest_pref ::
  "(string \<rightharpoonup> real) \<Rightarrow> nat \<Rightarrow> pref \<Rightarrow> user_memory \<Rightarrow> user_memory outcome" where
  "ingest_pref conf now p m =
     (case pref_aspect p of None \<Rightarrow> Inl (KeyError ''aspect'', m) | Some aspect \<Rightarrow>
      case pref_value p of None \<Rightarrow> Inl (KeyError ''value'', m) | Some v \<Rightarrow>
      case pref_strength p of None \<Rightarrow> Inl (KeyError ''strength'', m) | Some strength \<Rightarrow>
        let val = lower v; m1 = setdefault aspect [] m in
        case conf strength of
          None \<Rightarrow> Inl (KeyError strength, m1)
        | Some c \<Rightarrow>
            Inr (AList.update aspect
                  (AList.update val \<lparr>confidence = c, evidence = 1, last_seen = now\<rparr>
                     (bucket m1 aspect)) m1))"

text \<open>The items in order; the \<open>i\<close>-th clock reading of the call is \<open>clock i\<close>.\<close>

fun ingest_prefs ::
  "(string \<rightharpoonup> real) \<Rightarrow> (nat \<Rightarrow> nat) \<Rightarrow> nat \<Rightarrow> pref list \<Rightarrow> user_memory \<Rightarrow> user_memory outcome"
where
  "ingest_prefs conf clock i [] m = Inr m"
| "ingest_prefs conf clock i (p # ps) m =
     (case ingest_pref conf (clock i) p m of
        Inl e \<Rightarrow> Inl e
      | Inr m' \<Rightarrow> ingest_prefs conf clock (Suc i) ps m')"

text \<open>\<open>extracted_prefs.get(group, [])\<close> for the two groups, hard before soft.\<close>

definition group_items :: "extracted \<Rightarrow> pref list" where
  "group_items x =
     (case hard_preferences x of None \<Rightarrow> [] | Some ps \<Rightarrow> ps) @
     (case soft_preferences x of None \<Rightarrow> [] | Some ps \<Rightarrow> ps)"

definition ingest_extracted_preferences ::
  "(string \<rightharpoonup> real) \<Rightarrow> (nat \<Rightarrow> nat) \<Rightarrow> extracted \<Rightarrow> user_memory \<Rightarrow> user_memory outcome" where
  "ingest_extracted_preferences conf clock x m = ingest_prefs conf clock 0 (group_items x) m"

subsection \<open>Applying actions\<close>

text \<open>\<open>STRENGTH_TO_CONF.get(act.get("strength", "medium"), 0.6)\<close>.\<close>

definition resolve_strength :: "(string \<rightharpoonup> real) \<Rightarrow> action_rec \<Rightarrow> real" where
  "resolve_strength conf act =
     (case conf (case act_strength act of None \<Rightarrow> ''medium'' | Some l \<Rightarrow> l) of
        None \<Rightarrow> 0.6
      | Some c \<Rightarrow> c)"

text \<open>
  The \<open>merge\<close> branch on the bucket of the aspect. When the value is present, the
  two assignments set \<open>confidence\<close> and \<open>evidence\<close> of the target entry (the
  value's evidence is read after the first assignment, which leaves every evidence as
  it was), then \<open>del\<close> removes the value. The last statement subscripts the target
  again: it raises \<open>KeyError\<close> when the target is gone.
\<close>

definition merge_into ::
  "nat \<Rightarrow> string \<Rightarrow> string option \<Rightarrow> aspect_memory \<Rightarrow> aspect_memory outcome" where
  "merge_into now val target b =
     (if falsy target then Inr b
      else
        let t = lower (case target of None \<Rightarrow> [] | Some s \<Rightarrow> s) in
        case map_of b t of
          None \<Rightarrow> Inr b
        | Some te \<Rightarrow>
            let b3 =
              (case map_of b val of
                 None \<Rightarrow> b
               | Some ve \<Rightarrow>
                   AList.delete val
                     (AList.update t
                        (te\<lparr>confidence := max (confidence te) (confidence ve),
                            evidence := evidence te + evidence ve\<rparr>) b))
            in case map_of b3 t of
                 None \<Rightarrow> Inl (KeyError t, b3)
               | Some e \<Rightarrow> Inr (AList.update t (e\<lparr>last_seen := now\<rparr>) b3))"

text \<open>The confidence that \<open>weaken\<close> assigns: \<open>max(0.05, confidence * 0.6)\<close>.\<close>

definition weakened :: "real \<Rightarrow> real" where
  "weakened c = max 0.05 (c * 0.6)"

text \<open>
  Binary64. \<open>floor_log2 x\<close> is the binary exponent of a positive \<open>x\<close>, the \<open>k\<close> with
  \<open>2 ^ k \<le> x < 2 ^ (k + 1)\<close>. \<open>round_double x\<close> is the double nearest to \<open>x\<close>, ties
  to the even significand: a multiple of \<open>2 ^ (k - 52)\<close>, of \<open>2 ^ - 1074\<close> in the
  subnormal range, and \<open>None\<close> when the rounded magnitude reaches \<open>2 ^ 1024\<close>, where
  the float is \<open>inf\<close> (and the conversion of an int raises \<open>OverflowError\<close>).
\<close>

definition floor_log2 :: "real \<Rightarrow> int" where
  "floor_log2 x = (if 1 \<le> x then bitlen \<lfloor>x\<rfloor> - 1 else - bitlen (\<lceil>1 / x\<rceil> - 1))"

definition round_half_even :: "real \<Rightarrow> int" where
  "round_half_even x =
     (let n = \<lfloor>x\<rfloor>; r = x - of_int n
      in if r < 1 / 2 then n else if 1 / 2 < r then n + 1 else if even n then n else n + 1)"

definition round_double :: "real \<Rightarrow> real option" where
  "round_double x =
     (if x = 0 then Some 0
      else
        let q = max (floor_log2 \<bar>x\<bar> - 52) (- 1074);
            y = of_int (round_half_even (x / 2 powi q)) * 2 powi q
        in if 2 ^ 1024 \<le> \<bar>y\<bar> then None else Some y)"

text \<open>
  The right-hand side of lines 61 to 63, \<open>(confidence * evidence + strength) /
  (evidence + 1)\<close>: \<open>float * int\<close> and \<open>float / int\<close> convert the int, which raises
  \<open>OverflowError\<close> when it is too large; a zero divisor raises
  \<open>ZeroDivisionError\<close>; product, sum and quotient are rounded. A product or a sum that
  is \<open>inf\<close> raises nothing, so both exceptions come before \<open>NotFinite\<close>.
\<close>

definition reinforce_confidence :: "real \<Rightarrow> int \<Rightarrow> real \<Rightarrow> error + real" where
  "reinforce_confidence c e s =
     (case round_double (of_int e) of
        None \<Rightarrow> Inl OverflowError
      | Some fe \<Rightarrow>
          (case round_double (of_int (e + 1)) of
             None \<Rightarrow> Inl OverflowError
           | Some d \<Rightarrow>
               if d = 0 then Inl ZeroDivisionError
               else
                 (case round_double (c * fe) of
                    None \<Rightarrow> Inl NotFinite
                  | Some p \<Rightarrow>
                      (case round_double (p + s) of
                         None \<Rightarrow> Inl NotFinite
                       | Some t \<Rightarrow>
                           (case round_double (t / d) of
                              None \<Rightarrow> Inl NotFinite
                            | Some q \<Rightarrow> Inr q)))))"

text \<open>The \<open>if\<close>/\<open>elif\<close> chain of the loop body, on the bucket of the aspect.\<close>

definition dispatch ::
  "real \<Rightarrow> nat \<Rightarrow> string \<Rightarrow> string \<Rightarrow> string option \<Rightarrow> aspect_memory \<Rightarrow> aspect_memory outcome"
where
  "dispatch strength now action val target b =
     (if action = ''add'' \<and> map_of b val = None then
        Inr (AList.update val \<lparr>confidence = strength, evidence = 1, last_seen = now\<rparr> b)
      else if action = ''reinforce'' \<and> map_of b val \<noteq> None then
        (case map_of b val of
           None \<Rightarrow> Inr b
         | Some e \<Rightarrow>
             (case reinforce_confidence (confidence e) (evidence e) strength of
                Inl err \<Rightarrow> Inl (err, b)
              | Inr c \<Rightarrow>
                  Inr (AList.update val
                         \<lparr>confidence = c, evidence = evidence e + 1, last_seen = now\<rparr> b)))
      else if action = ''weaken'' \<and> map_of b val \<noteq> None then
        (case map_of b val of
           None \<Rightarrow> Inr b
         | Some e \<Rightarrow>
             Inr (AList.update val
                    (e\<lparr>confidence := weakened (confidence e), last_seen := now\<rparr>) b))
      else if action = ''merge'' then merge_into now val target b
      else Inr b)"

text \<open>One iteration of the loop of \<open>apply_actions\<close>.\<close>

definition apply_action ::
  "string list \<Rightarrow> (string \<rightharpoonup> real) \<Rightarrow> nat \<Rightarrow> action_rec \<Rightarrow> user_memory \<Rightarrow> user_memory outcome"
where
  "apply_action aspects conf now act m =
     (if falsy (act_action act) \<or> falsy (act_aspect act) \<or> falsy (act_value act) then Inr m
      else
        case (act_action act, act_aspect act, act_value act) of
          (Some action, Some aspect, Some v) \<Rightarrow>
            if aspect \<notin> set aspects then Inr m
            else
              let val = lower v;
                  strength = resolve_strength conf act;
                  m1 = setdefault aspect [] m
              in (case dispatch strength now action val (act_target act) (bucket m1 aspect) of
                    Inl (err, b) \<Rightarrow> Inl (err, AList.update aspect b m1)
                  | Inr b \<Rightarrow> Inr (AList.update aspect b m1))
        | _ \<Rightarrow> Inr m)"

fun apply_actions ::
  "string list \<Rightarrow> (string \<rightharpoonup> real) \<Rightarrow> nat \<Rightarrow> action_rec list \<Rightarrow> user_memory \<Rightarrow> user_memory outcome"
where
  "apply_actions aspects conf now [] m = Inr m"
| "apply_actions aspects conf now (act # acts) m =
     (case apply_action aspects conf now act m of
        Inl e \<Rightarrow> Inl e
      | Inr m' \<Rightarrow> apply_actions aspects conf now acts m')"

subsection \<open>Observations\<close>

text \<open>
  The memories that the loop of \<open>apply_actions\<close> leaves after each record it processes,
  in order; a record that raises ends the loop with the memory it leaves.
\<close>

fun apply_trace ::
  "string list \<Rightarrow> (string \<rightharpoonup> real) \<Rightarrow> nat \<Rightarrow> action_rec list \<Rightarrow> user_memory \<Rightarrow> user_memory list"
where
  "apply_trace aspects conf now [] m = []"
| "apply_trace aspects conf now (act # acts) m =
     (case apply_action aspects conf now act m of
        Inl (err, m') \<Rightarrow> [m']
      | Inr m' \<Rightarrow> m' # apply_trace aspects conf now acts m')"

text \<open>Every entry of the memory has an evidence of at least one.\<close>

definition evidence_ok :: "user_memory \<Rightarrow> bool" where
  "evidence_ok m = list_all (\<lambda>(a, b). list_all (\<lambda>(k, e). 1 \<le> evidence e) b) m"

text \<open>The keys of the memory, of every aspect, in order.\<close>

definition keys_of :: "user_memory \<Rightarrow> (string \<times> string list) list" where
  "keys_of m = map (\<lambda>(a, b). (a, map fst b)) m"

text \<open>
  A payload whose items have the three keys and a strength label of the table: the
  items on which no subscript of \<open>ingest_extracted_preferences\<close> raises.
\<close>

definition well_formed_pref :: "(string \<rightharpoonup> real) \<Rightarrow> pref \<Rightarrow> bool" where
  "well_formed_pref conf p =
     (pref_aspect p \<noteq> None \<and> pref_value p \<noteq> None \<and>
      (case pref_strength p of None \<Rightarrow> False | Some s \<Rightarrow> conf s \<noteq> None))"

definition well_formed :: "(string \<rightharpoonup> real) \<Rightarrow> extracted \<Rightarrow> bool" where
  "well_formed conf x = list_all (well_formed_pref conf) (group_items x)"

text \<open>
  The confidence that the last item for the aspect \<open>a\<close> and the key \<open>k\<close> assigns, if
  an item of the list is for them.
\<close>

fun last_write :: "(string \<rightharpoonup> real) \<Rightarrow> pref list \<Rightarrow> string \<Rightarrow> string \<Rightarrow> real option" where
  "last_write conf [] a k = None"
| "last_write conf (p # ps) a k =
     (case last_write conf ps a k of
        Some c \<Rightarrow> Some c
      | None \<Rightarrow>
          if pref_aspect p = Some a \<and> map_option lower (pref_value p) = Some k
          then (case pref_strength p of None \<Rightarrow> None | Some s \<Rightarrow> conf s)
          else None)"

subsection \<open>A configuration\<close>

text \<open>
  A vocabulary and a strength table to run the operations on; \<open>strong\<close> is 0.9 as in
  the scenarios of the specification.
\<close>

definition example_aspects :: "string list" where
  "example_aspects = [''cuisine'', ''price'', ''dietary'']"

definition example_conf :: "string \<rightharpoonup> real" where
  "example_conf = [''weak'' \<mapsto> 0.3, ''medium'' \<mapsto> 0.6, ''strong'' \<mapsto> 0.9]"

text \<open>The action record \<open>{"action": a, "aspect": asp, "value": v}\<close>.\<close>

definition action :: "string \<Rightarrow> string \<Rightarrow> string \<Rightarrow> action_rec" where
  "action a asp v =
     \<lparr>act_action = Some a, act_aspect = Some asp, act_value = Some v,
      act_target = None, act_strength = None\<rparr>"

section \<open>Properties\<close>

subsection \<open>Lookups after an update\<close>

lemma map_of_setdefault:
  "map_of (setdefault k v d) k' =
     (case map_of d k' of None \<Rightarrow> if k' = k then Some v else None | Some x \<Rightarrow> Some x)"
  by (simp add: setdefault_def map_add_def split: option.splits)

lemma bucket_setdefault [simp]: "bucket (setdefault a [] m) a' = bucket m a'"
  by (simp add: bucket_def map_of_setdefault split: option.splits)

lemma lookup_setdefault [simp]: "lookup (setdefault a [] m) a' k = lookup m a' k"
  by (simp add: lookup_def map_of_setdefault split: option.splits)

lemma lookup_update:
  "lookup (AList.update a b m) a' k = (if a' = a then map_of b k else lookup m a' k)"
  by (simp add: lookup_def update_conv')

lemma lookup_bucket: "lookup m a k = map_of (bucket m a) k"
  by (simp add: lookup_def bucket_def split: option.splits)

lemma apply_action_valid:
  assumes "act_action act = Some a" "a \<noteq> []" "act_aspect act = Some asp" "asp \<noteq> []"
    "asp \<in> set aspects" "act_value act = Some v" "v \<noteq> []"
  shows "apply_action aspects conf now act m =
     (case dispatch (resolve_strength conf act) now a (lower v) (act_target act) (bucket m asp) of
        Inl (err, b) \<Rightarrow> Inl (err, AList.update asp b (setdefault asp [] m))
      | Inr b \<Rightarrow> Inr (AList.update asp b (setdefault asp [] m)))"
  using assms by (simp add: apply_action_def falsy_def Let_def)

lemma apply_action_skip:
  assumes "\<forall>a. act_aspect act = Some a \<longrightarrow> a \<notin> set aspects"
  shows "apply_action aspects conf now act m = Inr m"
  using assms by (simp add: apply_action_def falsy_def split: option.splits)

subsection \<open>Unknown aspects\<close>

text \<open>
  Claim C6. When every record of an action list has an aspect outside the vocabulary
  (or no aspect at all), \<open>apply_actions\<close> returns normally and the memory is the one
  it started from: no entry is changed and no bucket is created.
\<close>

theorem apply_actions_unknown_aspect_unchanged:
  assumes "\<forall>act \<in> set acts. \<forall>a. act_aspect act = Some a \<longrightarrow> a \<notin> set aspects"
  shows "apply_actions aspects conf now acts m = Inr m"
  using assms by (induction acts) (simp_all add: apply_action_skip)

theorem apply_actions_unknown_aspect_unchanged_witness:
  "apply_actions example_aspects example_conf 7
     [action ''add'' ''mood'' ''cozy'', (action ''merge'' ''vibe'' ''loud'')\<lparr>act_target := Some ''italian''\<rparr>]
     [(''cuisine'', [(''italian'', \<lparr>confidence = 0.8, evidence = 1, last_seen = 0\<rparr>)])]
   = Inr [(''cuisine'', [(''italian'', \<lparr>confidence = 0.8, evidence = 1, last_seen = 0\<rparr>)])]"
  using apply_actions_unknown_aspect_unchanged
    [of "[action ''add'' ''mood'' ''cozy'', (action ''merge'' ''vibe'' ''loud'')\<lparr>act_target := Some ''italian''\<rparr>]"
        example_aspects example_conf 7
        "[(''cuisine'', [(''italian'', \<lparr>confidence = 0.8, evidence = 1, last_seen = 0\<rparr>)])]"]
  by (simp add: action_def example_aspects_def)

subsection \<open>The bucket created by a no-op action\<close>

lemma update_append_fresh:
  "map_of m k = None \<Longrightarrow> AList.update k v (m @ [(k, v')]) = m @ [(k, v)]"
  by (induction m) (auto split: if_splits)

lemma dispatch_empty_noop:
  "a \<noteq> ''add'' \<Longrightarrow> dispatch s now a val target [] = Inr []"
  by (simp add: dispatch_def merge_into_def)

text \<open>
  Claim C9. A record with a non-empty action other than \<open>add\<close>, a non-empty value and
  an aspect of the vocabulary that has no bucket yet has no effect on any entry, and
  still \<open>apply_actions\<close> appends an empty bucket for the aspect. Afterwards
  \<open>has_memory\<close> is true and \<open>get_memory_view\<close> does not list the aspect.
\<close>

theorem noop_action_creates_empty_bucket:
  assumes "act_action act = Some a" "a \<noteq> []" "a \<noteq> ''add''"
    and "act_aspect act = Some asp" "asp \<noteq> []" "asp \<in> set aspects"
    and "act_value act = Some v" "v \<noteq> []"
    and "map_of m asp = None"
  shows "apply_actions aspects conf now [act] m = Inr (m @ [(asp, [])]) \<and>
         has_memory (m @ [(asp, [])]) \<and>
         asp \<notin> fst ` set (get_memory_view (m @ [(asp, [])]))"
proof -
  have b: "bucket m asp = []"
    using assms(9) by (simp add: bucket_def)
  have sd: "setdefault asp [] m = m @ [(asp, [])]"
    using assms(9) by (simp add: setdefault_def)
  have "apply_action aspects conf now act m = Inr (m @ [(asp, [])])"
    using assms by (simp add: apply_action_valid b sd dispatch_empty_noop update_append_fresh)
  moreover have "has_memory (m @ [(asp, [])])"
    by (simp add: has_memory_def)
  moreover have "asp \<notin> fst ` set m"
    using assms(9) by (simp add: map_of_eq_None_iff)
  then have "asp \<notin> fst ` set (get_memory_view (m @ [(asp, [])]))"
    by (force simp add: get_memory_view_def)
  ultimately show ?thesis by simp
qed

theorem noop_action_creates_empty_bucket_witness:
  "apply_actions example_aspects example_conf 7 [action ''ignore'' ''price'' ''cheap'']
     [(''cuisine'', [(''italian'', \<lparr>confidence = 0.8, evidence = 1, last_seen = 0\<rparr>)])]
   = Inr ([(''cuisine'', [(''italian'', \<lparr>confidence = 0.8, evidence = 1, last_seen = 0\<rparr>)])]
          @ [(''price'', [])]) \<and>
   has_memory ([(''cuisine'', [(''italian'', \<lparr>confidence = 0.8, evidence = 1, last_seen = 0\<rparr>)])]
          @ [(''price'', [])]) \<and>
   ''price'' \<notin> fst ` set (get_memory_view
      ([(''cuisine'', [(''italian'', \<lparr>confidence = 0.8, evidence = 1, last_seen = 0\<rparr>)])]
          @ [(''price'', [])]))"
  using noop_action_creates_empty_bucket
    [of "action ''ignore'' ''price'' ''cheap''" "''ignore''" "''price''" example_aspects "''cheap''"
        "[(''cuisine'', [(''italian'', \<lparr>confidence = 0.8, evidence = 1, last_seen = 0\<rparr>)])]"
        example_conf 7]
  by (simp add: action_def example_aspects_def)

subsection \<open>Rounding to binary64\<close>

lemma bitlen_numeral:
  "bitlen (numeral (Num.Bit0 n)) = bitlen (numeral n) + 1"
  "bitlen (numeral (Num.Bit1 n)) = bitlen (numeral n) + 1"
  "bitlen 1 = 1" "bitlen 0 = 0"
  by (subst compute_bitlen, simp)+

lemma floor_log2_le:
  assumes "0 < x"
  shows "2 powi (floor_log2 x) \<le> x"
proof (cases "1 \<le> x")
  case True
  define n where "n = \<lfloor>x\<rfloor>"
  have n: "0 < n" using True by (simp add: n_def)
  then have b: "1 \<le> bitlen n" by (simp add: bitlen_ge_iff_power)
  have "2 ^ nat (bitlen n - 1) \<le> n" using bitlen_bounds [OF n] by simp
  then have "(2::real) ^ nat (bitlen n - 1) \<le> of_int n"
    by (metis of_int_le_iff of_int_numeral of_int_power)
  also have "\<dots> \<le> x" by (simp add: n_def)
  finally have "(2::real) ^ nat (bitlen n - 1) \<le> x" .
  moreover have "floor_log2 x = bitlen n - 1"
    using True by (simp add: floor_log2_def n_def)
  ultimately show ?thesis using b by (simp add: power_int_nonneg_exp)
next
  case False
  define m where "m = \<lceil>1 / x\<rceil>"
  define j where "j = bitlen (m - 1)"
  have "1 < 1 / x" using False assms by simp
  then have m: "0 < m - 1" by (simp add: m_def less_ceiling_iff)
  have j0: "0 \<le> j" by (simp add: j_def bitlen_nonneg)
  have "m - 1 < 2 ^ nat j" using bitlen_bounds [OF m] by (simp add: j_def)
  then have "m \<le> 2 ^ nat j" by simp
  then have "of_int m \<le> (2::real) ^ nat j"
    by (metis of_int_le_iff of_int_numeral of_int_power)
  moreover have "1 / x \<le> of_int m" by (simp add: m_def)
  ultimately have "1 / x \<le> 2 ^ nat j" by linarith
  then have "1 \<le> 2 ^ nat j * x"
    using assms by (simp add: pos_divide_le_eq)
  then have "1 / 2 ^ nat j \<le> x"
    by (simp add: pos_divide_le_eq mult.commute)
  moreover have "floor_log2 x = - j"
    using False by (simp add: floor_log2_def m_def j_def)
  ultimately show ?thesis
    using j0 by (simp add: power_int_minus_divide power_int_nonneg_exp)
qed

lemma round_half_even_error: "\<bar>of_int (round_half_even z) - z\<bar> \<le> 1 / 2"
proof -
  have "of_int \<lfloor>z\<rfloor> \<le> z" "z < of_int \<lfloor>z\<rfloor> + 1" by linarith+
  then show ?thesis
    by (auto simp add: round_half_even_def Let_def)
qed

lemma round_half_even_int [simp]: "round_half_even (of_int k) = k"
  by (simp add: round_half_even_def)

lemma round_double_error:
  assumes "\<bar>x\<bar> \<le> 2 ^ 1023"
  shows "\<exists>y. round_double x = Some y \<and> \<bar>y - x\<bar> \<le> \<bar>x\<bar> / 2 ^ 53 + 2 powi (- 1075)"
proof (cases "x = 0")
  case True
  then show ?thesis by (simp add: round_double_def)
next
  case False
  define q where "q = max (floor_log2 \<bar>x\<bar> - 52) (- 1074)"
  define y :: real where "y = of_int (round_half_even (x / 2 powi q)) * 2 powi q"
  have pos: "(0::real) < 2 powi q" by simp
  have "\<bar>y - x\<bar> = \<bar>of_int (round_half_even (x / 2 powi q)) - x / 2 powi q\<bar> * 2 powi q"
  proof -
    have "y - x = (of_int (round_half_even (x / 2 powi q)) - x / 2 powi q) * 2 powi q"
      using pos by (simp add: y_def algebra_simps)
    then show ?thesis using pos by (simp add: abs_mult)
  qed
  also have "\<dots> \<le> 1 / 2 * 2 powi q"
    using pos by (intro mult_right_mono round_half_even_error) simp
  also have "\<dots> = 2 powi (q - 1)"
    by (simp add: power_int_diff)
  finally have err: "\<bar>y - x\<bar> \<le> 2 powi (q - 1)" .
  have half: "2 powi (q - 1) \<le> \<bar>x\<bar> / 2 ^ 53 + 2 powi (- 1075)"
  proof (cases "- 1074 \<le> floor_log2 \<bar>x\<bar> - 52")
    case True
    then have "q - 1 = floor_log2 \<bar>x\<bar> + (- 53)" by (simp add: q_def)
    then have "(2::real) powi (q - 1) = 2 powi (floor_log2 \<bar>x\<bar> + (- 53))"
      by (simp only:)
    also have "\<dots> = 2 powi (floor_log2 \<bar>x\<bar>) * 2 powi (- 53)"
      by (rule power_int_add) simp
    also have "\<dots> = 2 powi (floor_log2 \<bar>x\<bar>) / 2 ^ 53"
      by (simp add: power_int_minus_divide)
    also have "\<dots> \<le> \<bar>x\<bar> / 2 ^ 53"
      using False by (intro divide_right_mono floor_log2_le) simp_all
    finally show ?thesis
      using zero_le_power_int [of "2::real" "- 1075"] by linarith
  next
    case False
    then have "q - 1 = - 1075" by (simp add: q_def)
    then have "(2::real) powi (q - 1) = 2 powi (- 1075)"
      by (simp only:)
    moreover have "0 \<le> \<bar>x\<bar> / 2 ^ 53" by simp
    ultimately show ?thesis by linarith
  qed
  have small: "\<bar>x\<bar> / 2 ^ 53 + 2 powi (- 1075) < (2::real) ^ 1023"
  proof -
    have "\<bar>x\<bar> / 2 ^ 53 \<le> 2 ^ 1023 / 2 ^ 53"
      using assms by (intro divide_right_mono) simp_all
    also have "\<dots> = (2::real) ^ 970"
      by (simp add: power_diff)
    finally have "\<bar>x\<bar> / 2 ^ 53 \<le> 2 ^ 970" .
    moreover have "(2::real) powi (- 1075) \<le> 1"
      by (simp add: power_int_minus_divide)
    moreover have "(2::real) ^ 970 + 1 < 2 ^ 1023"
    proof -
      have "(1::real) \<le> 2 ^ 970" by simp
      then have "(2::real) ^ 970 + 1 \<le> 2 * 2 ^ 970" by simp
      also have "\<dots> = (2::real) ^ 971" by simp
      also have "\<dots> < 2 ^ 1023" by (intro power_strict_increasing) simp_all
      finally show ?thesis .
    qed
    ultimately show ?thesis by linarith
  qed
  have "\<bar>y\<bar> \<le> \<bar>x\<bar> + \<bar>y - x\<bar>" by simp
  also have "\<dots> < 2 ^ 1023 + 2 ^ 1023"
    using assms err half small by linarith
  also have "\<dots> = (2::real) ^ 1024" by simp
  finally have fin: "\<not> 2 ^ 1024 \<le> \<bar>y\<bar>" by simp
  have "round_double x = Some y"
    using False fin by (simp add: round_double_def Let_def q_def [symmetric] y_def [symmetric])
  with err half show ?thesis by auto
qed

lemma round_double_int:
  assumes "0 \<le> n" and "n < 2 ^ 53"
  shows "round_double (of_int n) = Some (of_int n)"
proof (cases "n = 0")
  case True
  then show ?thesis by (simp add: round_double_def)
next
  case False
  with assms have n: "0 < n" by simp
  have b1: "1 \<le> bitlen n" using n by (simp add: bitlen_ge_iff_power)
  have b2: "bitlen n \<le> 53" using assms(2) by (simp add: bitlen_le_iff_power)
  define r where "r = nat (53 - bitlen n)"
  have fl: "floor_log2 \<bar>of_int n\<bar> = bitlen n - 1"
    using n by (simp add: floor_log2_def)
  have q: "max (floor_log2 \<bar>of_int n\<bar> - 52) (- 1074) = - int r"
    using b1 b2 by (simp add: fl r_def)
  have p: "(2::real) powi (- int r) = 1 / 2 ^ r"
    by (simp add: power_int_minus_divide)
  have z: "real_of_int n / (1 / 2 ^ r) = of_int (n * 2 ^ r)"
    by simp
  have y: "real_of_int (n * 2 ^ r) * (1 / 2 ^ r) = of_int n"
    by simp
  have "\<bar>real_of_int n\<bar> < 2 ^ 53"
    using assms by (metis abs_of_nonneg of_int_0_le_iff of_int_less_numeral_power_cancel_iff)
  also have "\<dots> < (2::real) ^ 1024"
    by (intro power_strict_increasing) simp_all
  finally have fin: "\<not> 2 ^ 1024 \<le> \<bar>real_of_int n\<bar>" by simp
  show ?thesis
    using False fin
    by (simp only: round_double_def Let_def q p z round_half_even_int y of_int_eq_0_iff if_False)
qed

lemma reinforce_confidence_close:
  assumes c: "0 \<le> c" "c \<le> 1" and s: "0 \<le> s" "s \<le> 1"
    and e: "0 \<le> e" "e + 1 < 2 ^ 53"
  shows "\<exists>q. reinforce_confidence c e s = Inr q \<and>
           \<bar>q - (c * of_int e + s) / of_int (e + 1)\<bar> \<le> 1 / 2 ^ 50"
proof -
  define E :: real where "E = of_int e"
  define u :: real where "u = 1 / 2 ^ 53"
  define h :: real where "h = 2 powi (- 1075)"
  define X where "X = (c * E + s) / (E + 1)"
  have E0: "0 \<le> E" using e(1) by (simp add: E_def)
  have E53: "E \<le> 2 ^ 53"
  proof -
    have "e \<le> 2 ^ 53" using e(2) by simp
    then show ?thesis
      unfolding E_def by (metis of_int_le_iff of_int_numeral of_int_power)
  qed
  have u0: "0 < u" and u1: "u \<le> 1" and u8: "8 * u = 1 / 2 ^ 50"
    by (simp_all add: u_def)
  have u4: "4 * u \<le> 1" by (simp add: u_def)
  have h0: "0 \<le> h" by (simp add: h_def)
  have hu: "h \<le> u"
  proof -
    have "(2::real) powi (- 1075) \<le> 2 powi (- 53)"
      by (rule power_int_increasing) simp_all
    then show ?thesis by (simp add: h_def u_def power_int_minus_divide)
  qed
  have big: "(2::real) ^ 53 * 2 + 2 \<le> 2 ^ 1023"
  proof -
    have "(2::real) ^ 53 * 2 + 2 \<le> 2 ^ 53 * 2 + 2 ^ 53 * 2" by simp
    also have "\<dots> = (2::real) ^ 55" by simp
    also have "\<dots> \<le> 2 ^ 1023" by (intro power_increasing) simp_all
    finally show ?thesis .
  qed
  have two: "(2::real) \<le> 2 ^ 1023"
  proof -
    have "(2::real) ^ 1 \<le> 2 ^ 1023" by (intro power_increasing) simp_all
    then show ?thesis by simp
  qed
  have W0: "0 \<le> E * u" using E0 u0 by simp
  have W1: "E * u \<le> E" using E0 u1 by (simp add: mult_left_le)
  have fe: "round_double (of_int e) = Some E"
    using e by (simp add: round_double_int E_def)
  have d: "round_double (of_int (e + 1)) = Some (E + 1)"
    using e round_double_int [of "e + 1"] by (simp add: E_def)
  have d0: "E + 1 \<noteq> 0" using E0 by simp
  \<comment> \<open>the product\<close>
  have cE0: "0 \<le> c * E" using c(1) E0 by simp
  have cE1: "c * E \<le> E" using mult_right_mono [OF c(2) E0] by simp
  have "\<bar>c * E\<bar> \<le> 2 ^ 1023" using cE0 cE1 E53 big by simp
  from round_double_error [OF this]
  obtain p where p: "round_double (c * E) = Some p"
    and "\<bar>p - c * E\<bar> \<le> \<bar>c * E\<bar> / 2 ^ 53 + 2 powi (- 1075)"
    by blast
  then have "\<bar>p - c * E\<bar> \<le> (c * E) * u + h"
    using cE0 by (simp add: u_def h_def)
  moreover have "(c * E) * u \<le> E * u"
    using cE1 u0 by (simp add: mult_right_mono)
  ultimately have ep: "\<bar>p - c * E\<bar> \<le> E * u + h" by linarith
  \<comment> \<open>the sum\<close>
  have x2: "\<bar>p + s\<bar> \<le> 2 * E + 2"
    using ep cE0 cE1 W1 hu u1 s by linarith
  then have "\<bar>p + s\<bar> \<le> 2 ^ 1023" using E53 big by linarith
  from round_double_error [OF this]
  obtain t where t: "round_double (p + s) = Some t"
    and "\<bar>t - (p + s)\<bar> \<le> \<bar>p + s\<bar> / 2 ^ 53 + 2 powi (- 1075)"
    by blast
  then have "\<bar>t - (p + s)\<bar> \<le> \<bar>p + s\<bar> * u + h"
    by (simp add: u_def h_def)
  moreover have "\<bar>p + s\<bar> * u \<le> (2 * E + 2) * u"
    using x2 u0 by (simp add: mult_right_mono)
  ultimately have "\<bar>t - (p + s)\<bar> \<le> 2 * (E * u) + 2 * u + h"
    by (simp add: algebra_simps)
  with ep hu have et: "\<bar>t - (c * E + s)\<bar> \<le> 4 * (E + 1) * u"
    using W0 by (simp add: algebra_simps)
  \<comment> \<open>the quotient\<close>
  have Ep: "0 < E + 1" using E0 by simp
  have "t / (E + 1) - X = (t - (c * E + s)) / (E + 1)"
    by (simp add: X_def diff_divide_distrib)
  then have "\<bar>t / (E + 1) - X\<bar> = \<bar>t - (c * E + s)\<bar> / (E + 1)"
    using Ep by simp
  also have "\<dots> \<le> (4 * (E + 1) * u) / (E + 1)"
    using et Ep by (simp add: divide_right_mono)
  also have "\<dots> = 4 * u" using Ep by (simp add: field_simps)
  finally have ex: "\<bar>t / (E + 1) - X\<bar> \<le> 4 * u" .
  have X0: "0 \<le> X" using cE0 s(1) Ep by (simp add: X_def)
  have X1: "X \<le> 1"
  proof -
    have "c * E + s \<le> E + 1" using cE1 s(2) by simp
    then show ?thesis using Ep by (simp add: X_def)
  qed
  have x3: "\<bar>t / (E + 1)\<bar> \<le> 2"
    using ex X0 X1 u4 by linarith
  then have "\<bar>t / (E + 1)\<bar> \<le> 2 ^ 1023"
    using two by linarith
  from round_double_error [OF this]
  obtain q where q: "round_double (t / (E + 1)) = Some q"
    and "\<bar>q - t / (E + 1)\<bar> \<le> \<bar>t / (E + 1)\<bar> / 2 ^ 53 + 2 powi (- 1075)"
    by blast
  then have "\<bar>q - t / (E + 1)\<bar> \<le> \<bar>t / (E + 1)\<bar> * u + h"
    by (simp add: u_def h_def)
  moreover have "\<bar>t / (E + 1)\<bar> * u \<le> 2 * u"
    using x3 by (rule mult_right_mono) (simp add: u0 less_imp_le)
  ultimately have eq: "\<bar>q - t / (E + 1)\<bar> \<le> 3 * u"
    using hu by linarith
  have "\<bar>q - X\<bar> \<le> 8 * u" using eq ex u0 by linarith
  then have close: "\<bar>q - X\<bar> \<le> 1 / 2 ^ 50" by (simp only: u8)
  have "reinforce_confidence c e s = Inr q"
    using fe d d0 p t q by (simp add: reinforce_confidence_def E_def)
  moreover have "X = (c * of_int e + s) / of_int (e + 1)"
    by (simp add: X_def E_def)
  ultimately show ?thesis using close by auto
qed

subsection \<open>Reinforce\<close>

lemma reinforce_bounds:
  fixes c s :: real
  assumes "0 \<le> n"
  shows "min c s \<le> (c * of_int n + s) / of_int (n + 1) \<and>
         (c * of_int n + s) / of_int (n + 1) \<le> max c s"
proof -
  have p: "(0::real) < of_int (n + 1)" using assms by simp
  have n0: "(0::real) \<le> of_int n" using assms by simp
  have "min c s * of_int (n + 1) = min c s * of_int n + min c s"
    by (simp add: algebra_simps)
  also have "\<dots> \<le> c * of_int n + s"
    by (intro add_mono mult_right_mono n0) simp_all
  finally have lo: "min c s \<le> (c * of_int n + s) / of_int (n + 1)"
    using p by (simp add: pos_le_divide_eq)
  have "c * of_int n + s \<le> max c s * of_int n + max c s"
    by (intro add_mono mult_right_mono n0) simp_all
  also have "\<dots> = max c s * of_int (n + 1)"
    by (simp add: algebra_simps)
  finally have hi: "(c * of_int n + s) / of_int (n + 1) \<le> max c s"
    using p by (simp add: pos_divide_le_eq)
  from lo hi show ?thesis by simp
qed

lemma reinforce_step:
  assumes "act_action act = Some ''reinforce''"
    and "act_aspect act = Some asp" "asp \<noteq> []" "asp \<in> set aspects"
    and "act_value act = Some v" "v \<noteq> []"
    and "lookup m asp (lower v) = Some e"
    and "reinforce_confidence (confidence e) (evidence e) (resolve_strength conf act) = Inr q"
  shows "\<exists>m'. apply_action aspects conf now act m = Inr m' \<and>
           lookup m' asp (lower v) =
             Some \<lparr>confidence = q, evidence = evidence e + 1, last_seen = now\<rparr>"
proof -
  have b: "map_of (bucket m asp) (lower v) = Some e"
    using assms(7) by (simp add: lookup_bucket)
  have "dispatch (resolve_strength conf act) now ''reinforce'' (lower v) (act_target act)
          (bucket m asp) =
          Inr (AList.update (lower v)
                 \<lparr>confidence = q, evidence = evidence e + 1, last_seen = now\<rparr> (bucket m asp))"
    using b assms(8) by (simp add: dispatch_def)
  then show ?thesis
    using assms by (simp add: apply_action_valid lookup_update update_conv')
qed

text \<open>
  Claim C4 says that the confidence after a reinforce is exactly \<open>(c * e + s) / (e + 1)\<close>
  and lies between \<open>min c s\<close> and \<open>max c s\<close>. The program computes in binary64. With
  the strength table mapping \<open>strong\<close> to the double 0.9, which is
  \<open>8106479329266893 / 2 ^ 53\<close>, an \<open>add\<close> and five \<open>reinforce\<close> actions leave the
  confidence at that double with evidence 6, and one more \<open>reinforce\<close> gives the next
  double above it (0.9000000000000001), which is greater than \<open>max c s\<close>.
\<close>

theorem reinforce_rounding_counterexample:
  "apply_actions [''cuisine''] [''strong'' \<mapsto> 8106479329266893 / 2 ^ 53] 7
     (replicate 5 ((action ''reinforce'' ''cuisine'' ''italian'')\<lparr>act_strength := Some ''strong''\<rparr>))
     [(''cuisine'', [(''italian'',
        \<lparr>confidence = 8106479329266893 / 2 ^ 53, evidence = 1, last_seen = 7\<rparr>)])]
   = Inr [(''cuisine'', [(''italian'',
        \<lparr>confidence = 8106479329266893 / 2 ^ 53, evidence = 6, last_seen = 7\<rparr>)])] \<and>
   apply_actions [''cuisine''] [''strong'' \<mapsto> 8106479329266893 / 2 ^ 53] 7
     [(action ''reinforce'' ''cuisine'' ''italian'')\<lparr>act_strength := Some ''strong''\<rparr>]
     [(''cuisine'', [(''italian'',
        \<lparr>confidence = 8106479329266893 / 2 ^ 53, evidence = 6, last_seen = 7\<rparr>)])]
   = Inr [(''cuisine'', [(''italian'',
        \<lparr>confidence = 8106479329266894 / 2 ^ 53, evidence = 7, last_seen = 7\<rparr>)])] \<and>
   max (8106479329266893 / 2 ^ 53) (8106479329266893 / 2 ^ 53) < (8106479329266894 / 2 ^ 53 :: real)"
proof -
  have five: "replicate 5 x = [x, x, x, x, x]" for x :: action_rec
    by (simp add: numeral_eq_Suc)
  show ?thesis
    by (simp add: five apply_action_def action_def falsy_def lower_def
        lower_char_def resolve_strength_def setdefault_def bucket_def
        dispatch_def reinforce_confidence_def round_double_def floor_log2_def
        round_half_even_def Let_def bitlen_numeral power_int_minus)
qed

text \<open>
  Claim C4, amended. For an entry with confidence \<open>c\<close> in \<open>[0, 1]\<close> and evidence \<open>e\<close>
  with \<open>0 \<le> e\<close> and \<open>e + 1 < 2 ^ 53\<close>, a reinforce action with a strength resolving to
  \<open>s\<close> in \<open>[0, 1]\<close> returns normally and sets the confidence to the binary64 result
  \<open>q\<close> of \<open>(c * e + s) / (e + 1)\<close> and the evidence to \<open>e + 1\<close>. That result differs
  from the exact quotient by at most \<open>2 ^ - 50\<close>, and so lies between
  \<open>min c s - 2 ^ - 50\<close> and \<open>max c s + 2 ^ - 50\<close>.
\<close>

theorem reinforce_rounded_average:
  assumes "act_action act = Some ''reinforce''"
    and "act_aspect act = Some asp" "asp \<noteq> []" "asp \<in> set aspects"
    and "act_value act = Some v" "v \<noteq> []"
    and "lookup m asp (lower v) = Some e"
    and "0 \<le> evidence e" "evidence e + 1 < 2 ^ 53"
    and "0 \<le> confidence e" "confidence e \<le> 1"
    and "s = resolve_strength conf act" "0 \<le> s" "s \<le> 1"
  shows "\<exists>m' q. apply_actions aspects conf now [act] m = Inr m' \<and>
           reinforce_confidence (confidence e) (evidence e) s = Inr q \<and>
           lookup m' asp (lower v) =
             Some \<lparr>confidence = q, evidence = evidence e + 1, last_seen = now\<rparr> \<and>
           \<bar>q - (confidence e * of_int (evidence e) + s) / of_int (evidence e + 1)\<bar>
             \<le> 1 / 2 ^ 50 \<and>
           min (confidence e) s - 1 / 2 ^ 50 \<le> q \<and> q \<le> max (confidence e) s + 1 / 2 ^ 50"
proof -
  let ?X = "(confidence e * of_int (evidence e) + s) / of_int (evidence e + 1)"
  from reinforce_confidence_close [OF assms(10,11,13,14,8,9)]
  obtain q where q: "reinforce_confidence (confidence e) (evidence e) s = Inr q"
    and close: "\<bar>q - ?X\<bar> \<le> 1 / 2 ^ 50"
    by blast
  from reinforce_bounds [where c = "confidence e" and s = s, OF assms(8)]
  have exact: "min (confidence e) s \<le> ?X" "?X \<le> max (confidence e) s"
    by simp_all
  have lo: "min (confidence e) s - 1 / 2 ^ 50 \<le> q"
    using close exact(1) by linarith
  have hi: "q \<le> max (confidence e) s + 1 / 2 ^ 50"
    using close exact(2) by linarith
  from q have "reinforce_confidence (confidence e) (evidence e) (resolve_strength conf act) = Inr q"
    by (simp only: assms(12))
  from reinforce_step [where now = now, OF assms(1-7) this]
  obtain m' where "apply_action aspects conf now act m = Inr m'"
    and "lookup m' asp (lower v) =
      Some \<lparr>confidence = q, evidence = evidence e + 1, last_seen = now\<rparr>"
    by blast
  then have "apply_actions aspects conf now [act] m = Inr m' \<and>
      lookup m' asp (lower v) =
        Some \<lparr>confidence = q, evidence = evidence e + 1, last_seen = now\<rparr>"
    by simp
  with q close lo hi show ?thesis by blast
qed

theorem reinforce_rounded_average_witness:
  "\<exists>m' q. apply_actions example_aspects example_conf 7
             [(action ''reinforce'' ''cuisine'' ''Italian'')\<lparr>act_strength := Some ''strong''\<rparr>]
             [(''cuisine'', [(''italian'', \<lparr>confidence = 0.6, evidence = 1, last_seen = 0\<rparr>)])]
           = Inr m' \<and>
           lookup m' ''cuisine'' ''italian'' =
             Some \<lparr>confidence = q, evidence = 2, last_seen = 7\<rparr> \<and>
           \<bar>q - 0.75\<bar> \<le> 1 / 2 ^ 50"
proof -
  let ?act = "(action ''reinforce'' ''cuisine'' ''Italian'')\<lparr>act_strength := Some ''strong''\<rparr>"
  let ?m = "[(''cuisine'', [(''italian'', \<lparr>confidence = 0.6, evidence = 1, last_seen = 0\<rparr>)])]"
  let ?e = "\<lparr>confidence = 0.6, evidence = 1, last_seen = 0\<rparr>"
  have low: "lower ''Italian'' = ''italian''"
    by (simp add: lower_def lower_char_def)
  have l: "lookup ?m ''cuisine'' (lower ''Italian'') = Some ?e"
    by (simp add: lookup_def low)
  have s: "(0.9::real) = resolve_strength example_conf ?act"
    by (simp add: resolve_strength_def example_conf_def action_def)
  from reinforce_rounded_average
    [of ?act "''cuisine''" example_aspects "''Italian''" ?m ?e "0.9" example_conf 7, OF _ _ _ _ _ _ l _ _ _ _ s]
  obtain m' q where "apply_actions example_aspects example_conf 7 [?act] ?m = Inr m'"
    and "lookup m' ''cuisine'' (lower ''Italian'') =
      Some \<lparr>confidence = q, evidence = evidence ?e + 1, last_seen = 7\<rparr>"
    and "\<bar>q - (confidence ?e * of_int (evidence ?e) + 0.9) / of_int (evidence ?e + 1)\<bar>
      \<le> 1 / 2 ^ 50"
    by (auto simp add: action_def example_aspects_def)
  then show ?thesis
    by (auto simp add: low)
qed

subsection \<open>Weaken\<close>

lemma weaken_step:
  assumes "act_action act = Some ''weaken''"
    and "act_aspect act = Some asp" "asp \<noteq> []" "asp \<in> set aspects"
    and "act_value act = Some v" "v \<noteq> []"
    and "lookup m asp (lower v) = Some e"
  shows "\<exists>m'. apply_action aspects conf now act m = Inr m' \<and>
           lookup m' asp (lower v) =
             Some (e\<lparr>confidence := weakened (confidence e), last_seen := now\<rparr>)"
proof -
  have b: "map_of (bucket m asp) (lower v) = Some e"
    using assms(7) by (simp add: lookup_bucket)
  have "dispatch (resolve_strength conf act) now ''weaken'' (lower v) (act_target act) (bucket m asp) =
          Inr (AList.update (lower v)
                 (e\<lparr>confidence := weakened (confidence e), last_seen := now\<rparr>) (bucket m asp))"
    using b by (simp add: dispatch_def)
  then show ?thesis
    using assms by (simp add: apply_action_valid lookup_update update_conv')
qed

lemma weaken_repeated:
  assumes "act_action act = Some ''weaken''"
    and "act_aspect act = Some asp" "asp \<noteq> []" "asp \<in> set aspects"
    and "act_value act = Some v" "v \<noteq> []"
  shows "lookup m asp (lower v) = Some e \<Longrightarrow>
         \<exists>m' e'. apply_actions aspects conf now (replicate n act) m = Inr m' \<and>
           lookup m' asp (lower v) = Some e' \<and> evidence e' = evidence e \<and>
           confidence e' = (weakened ^^ n) (confidence e)"
proof (induction n arbitrary: m e)
  case 0
  then show ?case by simp
next
  case (Suc n)
  from weaken_step [OF assms Suc.prems, of conf now]
  obtain m1 where m1: "apply_action aspects conf now act m = Inr m1"
    "lookup m1 asp (lower v) = Some (e\<lparr>confidence := weakened (confidence e), last_seen := now\<rparr>)"
    by blast
  from Suc.IH [OF m1(2)] m1(1) show ?case
    by (simp add: funpow_swap1)
qed

lemma weaken_iter_closed:
  "(weakened ^^ Suc n) (c::real) = max 0.05 (c * 0.6 ^ Suc n)"
proof (induction n)
  case 0
  then show ?case by (simp add: weakened_def)
next
  case (Suc n)
  define x where "x = c * 0.6 ^ Suc n"
  have "(weakened ^^ Suc (Suc n)) c = weakened ((weakened ^^ Suc n) c)"
    by simp
  also have "\<dots> = weakened (max 0.05 x)"
    by (simp only: Suc x_def)
  also have "\<dots> = max 0.05 (x * 0.6)"
    by (simp add: weakened_def max_def)
  also have "x * 0.6 = c * 0.6 ^ Suc (Suc n)"
    by (simp add: x_def)
  finally show ?case .
qed

lemma weaken_iter_floor: "0.05 \<le> (weakened ^^ Suc n) (c::real)"
  unfolding weaken_iter_closed by simp

lemma weaken_iter_decreases:
  fixes c :: real
  assumes "0.05 < (weakened ^^ n) c"
  shows "(weakened ^^ Suc n) c < (weakened ^^ n) c"
  using assms by (simp add: weakened_def max_def)

lemma scaled_power_below:
  fixes c :: real
  assumes "c * 0.6 ^ N \<le> 0.05" and "N \<le> k"
  shows "c * 0.6 ^ k \<le> 0.05"
proof (cases "c \<le> 0")
  case True
  have "(0::real) \<le> 0.6 ^ k" by simp
  with True have "c * 0.6 ^ k \<le> 0" by (rule mult_nonpos_nonneg)
  then show ?thesis by simp
next
  case False
  have "(0.6::real) ^ k \<le> 0.6 ^ N"
    using assms(2) by (rule power_decreasing) simp_all
  moreover have "0 \<le> c" using False by simp
  ultimately have "c * 0.6 ^ k \<le> c * 0.6 ^ N"
    by (rule mult_left_mono)
  then show ?thesis using assms(1) by (rule order_trans)
qed

lemma scaled_power_eventually_below:
  fixes c :: real
  shows "\<exists>N. c * 0.6 ^ N \<le> 0.05"
proof (cases "c \<le> 0")
  case True
  then have "c * 0.6 ^ (0::nat) \<le> 0.05" by simp
  then show ?thesis by (rule exI)
next
  case False
  then have pos: "0 < c" by simp
  then have "0 < 0.05 / c" by simp
  then obtain N where N: "(0.6::real) ^ N < 0.05 / c"
    using real_arch_pow_inv [of "0.05 / c" "0.6"] by auto
  from N pos have "0.6 ^ N * c < 0.05"
    by (simp only: pos_less_divide_eq)
  then have "c * 0.6 ^ N \<le> 0.05"
    by (simp only: mult.commute less_imp_le)
  then show ?thesis by (rule exI)
qed

lemma weaken_iter_reaches_floor:
  fixes c :: real
  shows "\<exists>N. \<forall>n\<ge>N. (weakened ^^ n) c = 0.05"
proof -
  obtain N where N: "c * 0.6 ^ N \<le> 0.05"
    using scaled_power_eventually_below by blast
  have "(weakened ^^ n) c = 0.05" if "Suc N \<le> n" for n
  proof -
    from that obtain k where k: "n = Suc k"
      by (auto dest: Suc_le_D)
    from that k have "N \<le> Suc k" by simp
    with N have "c * 0.6 ^ Suc k \<le> 0.05" by (rule scaled_power_below)
    then have "max 0.05 (c * 0.6 ^ Suc k) = 0.05" by (rule max_absorb1)
    then show ?thesis
      by (simp only: k weaken_iter_closed)
  qed
  then show ?thesis by blast
qed

lemma weaken_iter_converges:
  fixes c :: real
  shows "(\<lambda>n. (weakened ^^ n) c) \<longlonglongrightarrow> 0.05"
proof -
  obtain N where "\<forall>n\<ge>N. (weakened ^^ n) c = 0.05"
    using weaken_iter_reaches_floor by blast
  then have "eventually (\<lambda>n. (weakened ^^ n) c = 0.05) sequentially"
    unfolding eventually_sequentially by blast
  then show ?thesis by (rule tendsto_eventually)
qed

text \<open>
  Claim C5. A weaken action on a present entry returns normally, sets the confidence to
  \<open>max 0.05 (confidence * 0.6)\<close> and leaves the evidence as it is; a confidence above
  0.05 strictly decreases. After \<open>n\<close> weaken actions the confidence is the \<open>n\<close>-fold
  iterate of that update: from the first action on it is at least 0.05, it strictly
  decreases as long as it is above 0.05, and the sequence converges to 0.05.
\<close>

theorem weaken_floor:
  assumes "act_action act = Some ''weaken''"
    and "act_aspect act = Some asp" "asp \<noteq> []" "asp \<in> set aspects"
    and "act_value act = Some v" "v \<noteq> []"
    and "lookup m asp (lower v) = Some e"
  shows "(\<exists>m'. apply_actions aspects conf now [act] m = Inr m' \<and>
            lookup m' asp (lower v) =
              Some (e\<lparr>confidence := max 0.05 (confidence e * 0.6), last_seen := now\<rparr>)) \<and>
         (0.05 < confidence e \<longrightarrow> max 0.05 (confidence e * 0.6) < confidence e) \<and>
         (\<forall>n. \<exists>m' e'. apply_actions aspects conf now (replicate n act) m = Inr m' \<and>
            lookup m' asp (lower v) = Some e' \<and> evidence e' = evidence e \<and>
            confidence e' = (weakened ^^ n) (confidence e)) \<and>
         (\<forall>n. 0.05 \<le> (weakened ^^ Suc n) (confidence e)) \<and>
         (\<forall>n. 0.05 < (weakened ^^ n) (confidence e) \<longrightarrow>
            (weakened ^^ Suc n) (confidence e) < (weakened ^^ n) (confidence e)) \<and>
         (\<lambda>n. (weakened ^^ n) (confidence e)) \<longlonglongrightarrow> 0.05"
proof -
  have one: "\<exists>m'. apply_actions aspects conf now [act] m = Inr m' \<and>
            lookup m' asp (lower v) =
              Some (e\<lparr>confidence := max 0.05 (confidence e * 0.6), last_seen := now\<rparr>)"
    using weaken_step [OF assms, of conf now] by (auto simp add: weakened_def)
  have dec: "0.05 < confidence e \<longrightarrow> max 0.05 (confidence e * 0.6) < confidence e"
    by (simp add: max_def)
  have rep: "\<forall>n. \<exists>m' e'. apply_actions aspects conf now (replicate n act) m = Inr m' \<and>
            lookup m' asp (lower v) = Some e' \<and> evidence e' = evidence e \<and>
            confidence e' = (weakened ^^ n) (confidence e)"
    using weaken_repeated [OF assms] by blast
  have floor: "\<forall>n. 0.05 \<le> (weakened ^^ Suc n) (confidence e)"
    using weaken_iter_floor by blast
  have strict: "\<forall>n. 0.05 < (weakened ^^ n) (confidence e) \<longrightarrow>
            (weakened ^^ Suc n) (confidence e) < (weakened ^^ n) (confidence e)"
    using weaken_iter_decreases by blast
  from one dec rep floor strict weaken_iter_converges [of "confidence e"]
  show ?thesis by blast
qed

theorem weaken_floor_witness:
  "\<exists>m'. apply_actions example_aspects example_conf 7 [action ''weaken'' ''cuisine'' ''Italian'']
           [(''cuisine'', [(''italian'', \<lparr>confidence = 0.1, evidence = 1, last_seen = 0\<rparr>)])] = Inr m' \<and>
         lookup m' ''cuisine'' ''italian'' = Some \<lparr>confidence = 0.06, evidence = 1, last_seen = 7\<rparr>"
  using weaken_floor
    [of "action ''weaken'' ''cuisine'' ''Italian''" "''cuisine''" example_aspects "''Italian''"
        "[(''cuisine'', [(''italian'', \<lparr>confidence = 0.1, evidence = 1, last_seen = 0\<rparr>)])]"
        "\<lparr>confidence = 0.1, evidence = 1, last_seen = 0\<rparr>" example_conf 7]
  by (simp add: action_def example_aspects_def lookup_def lower_def lower_char_def)

subsection \<open>The strength of an action record\<close>

lemma add_step:
  assumes "act_action act = Some ''add''"
    and "act_aspect act = Some asp" "asp \<noteq> []" "asp \<in> set aspects"
    and "act_value act = Some v" "v \<noteq> []"
    and "lookup m asp (lower v) = None"
  shows "\<exists>m'. apply_action aspects conf now act m = Inr m' \<and>
           lookup m' asp (lower v) =
             Some \<lparr>confidence = resolve_strength conf act, evidence = 1, last_seen = now\<rparr>"
proof -
  have b: "map_of (bucket m asp) (lower v) = None"
    using assms(7) by (simp add: lookup_bucket)
  have "dispatch (resolve_strength conf act) now ''add'' (lower v) (act_target act) (bucket m asp) =
          Inr (AList.update (lower v)
                 \<lparr>confidence = resolve_strength conf act, evidence = 1, last_seen = now\<rparr>
                 (bucket m asp))"
    using b by (simp add: dispatch_def)
  then show ?thesis
    using assms by (simp add: apply_action_valid lookup_update update_conv')
qed

text \<open>
  Claim C8 says that a record without a strength key gets the strength 0.6 whatever the
  table assigns to \<open>medium\<close>. The code looks the label \<open>medium\<close> up for such a record:
  with a table that maps \<open>medium\<close> to 0.5, the entry an \<open>add\<close> creates has confidence 0.5.
\<close>

theorem strength_default_counterexample:
  "act_strength (action ''add'' ''cuisine'' ''thai'') = None \<and>
   resolve_strength [''medium'' \<mapsto> 0.5] (action ''add'' ''cuisine'' ''thai'') \<noteq> 0.6 \<and>
   apply_actions [''cuisine''] [''medium'' \<mapsto> 0.5] 0 [action ''add'' ''cuisine'' ''thai''] []
     = Inr [(''cuisine'', [(''thai'', \<lparr>confidence = 0.5, evidence = 1, last_seen = 0\<rparr>)])]"
  by (simp add: action_def resolve_strength_def apply_action_def falsy_def setdefault_def
        bucket_def dispatch_def lower_def lower_char_def)

text \<open>
  Claim C8, amended. The strength an action uses (here: the confidence of the entry that
  \<open>add\<close> creates) is the table's value for the record's label, where a record without
  a strength key has the label \<open>medium\<close>; it is 0.6 when the table has no such key.
  So an unrecognized label gives 0.6, and a missing strength key gives the table's
  value for \<open>medium\<close>, or 0.6 when the table has no \<open>medium\<close>.
\<close>

theorem strength_resolution:
  assumes "act_action act = Some ''add''"
    and "act_aspect act = Some asp" "asp \<noteq> []" "asp \<in> set aspects"
    and "act_value act = Some v" "v \<noteq> []"
    and "lookup m asp (lower v) = None"
  shows "(\<exists>m'. apply_actions aspects conf now [act] m = Inr m' \<and>
            lookup m' asp (lower v) =
              Some \<lparr>confidence = resolve_strength conf act, evidence = 1, last_seen = now\<rparr>) \<and>
         (\<forall>l c. act_strength act = Some l \<and> conf l = Some c \<longrightarrow> resolve_strength conf act = c) \<and>
         (\<forall>l. act_strength act = Some l \<and> conf l = None \<longrightarrow> resolve_strength conf act = 0.6) \<and>
         (\<forall>c. act_strength act = None \<and> conf ''medium'' = Some c \<longrightarrow>
            resolve_strength conf act = c) \<and>
         (act_strength act = None \<and> conf ''medium'' = None \<longrightarrow> resolve_strength conf act = 0.6)"
proof -
  have "\<exists>m'. apply_actions aspects conf now [act] m = Inr m' \<and>
            lookup m' asp (lower v) =
              Some \<lparr>confidence = resolve_strength conf act, evidence = 1, last_seen = now\<rparr>"
    using add_step [OF assms, of conf now] by auto
  then show ?thesis
    by (simp add: resolve_strength_def)
qed

theorem strength_resolution_witness:
  "\<exists>m'. apply_actions example_aspects example_conf 7
           [(action ''add'' ''price'' ''Cheap'')\<lparr>act_strength := Some ''huge''\<rparr>]
           [(''cuisine'', [(''italian'', \<lparr>confidence = 0.8, evidence = 1, last_seen = 0\<rparr>)])] = Inr m' \<and>
         lookup m' ''price'' ''cheap'' = Some \<lparr>confidence = 0.6, evidence = 1, last_seen = 7\<rparr>"
  using strength_resolution
    [of "(action ''add'' ''price'' ''Cheap'')\<lparr>act_strength := Some ''huge''\<rparr>"
        "''price''" example_aspects "''Cheap''"
        "[(''cuisine'', [(''italian'', \<lparr>confidence = 0.8, evidence = 1, last_seen = 0\<rparr>)])]"
        example_conf 7]
  by (simp add: action_def example_aspects_def example_conf_def resolve_strength_def
        lookup_def lower_def lower_char_def)

subsection \<open>Merge\<close>

lemma entry_all_updated:
  "e\<lparr>confidence := c, evidence := n, last_seen := t\<rparr> =
     \<lparr>confidence = c, evidence = n, last_seen = t\<rparr>"
  by (cases e) simp

lemma merge_step:
  assumes "act_action act = Some ''merge''"
    and "act_aspect act = Some asp" "asp \<noteq> []" "asp \<in> set aspects"
    and "act_value act = Some v" "v \<noteq> []"
    and "act_target act = Some t" "t \<noteq> []"
    and "lookup m asp (lower t) = Some te"
    and "lookup m asp (lower v) = Some ve"
    and "lower v \<noteq> lower t"
  shows "apply_action aspects conf now act m =
           Inr (AList.update asp
                  (AList.delete (lower v)
                     (AList.update (lower t)
                        \<lparr>confidence = max (confidence te) (confidence ve),
                         evidence = evidence te + evidence ve, last_seen = now\<rparr>
                        (bucket m asp)))
                  (setdefault asp [] m))"
proof -
  have bt: "map_of (bucket m asp) (lower t) = Some te"
    using assms(9) by (simp add: lookup_bucket)
  have bv: "map_of (bucket m asp) (lower v) = Some ve"
    using assms(10) by (simp add: lookup_bucket)
  have "merge_into now (lower v) (Some t) (bucket m asp) =
          Inr (AList.delete (lower v)
                 (AList.update (lower t)
                    \<lparr>confidence = max (confidence te) (confidence ve),
                     evidence = evidence te + evidence ve, last_seen = now\<rparr>
                    (bucket m asp)))"
    using bt bv assms(8,11)
    by (simp add: merge_into_def falsy_def update_conv' delete_update [symmetric]
          entry_all_updated)
  then show ?thesis
    using assms by (simp add: apply_action_valid dispatch_def)
qed

text \<open>
  Claim C1 includes the merge of a value into itself. There the value key and the target
  key are one key: \<open>del\<close> removes it, and the statement that follows subscripts the
  target and raises \<open>KeyError\<close>. The target entry does not get the evidence
  \<open>et + ev\<close>: it is gone.
\<close>

theorem merge_same_key_counterexample:
  "apply_actions example_aspects example_conf 7
     [(action ''merge'' ''cuisine'' ''italian'')\<lparr>act_target := Some ''italian''\<rparr>]
     [(''cuisine'', [(''italian'', \<lparr>confidence = 0.8, evidence = 1, last_seen = 0\<rparr>)])]
   = Inl (KeyError ''italian'', [(''cuisine'', [])])"
  by (simp add: apply_action_def action_def falsy_def example_aspects_def lower_def
        lower_char_def resolve_strength_def example_conf_def setdefault_def bucket_def
        dispatch_def merge_into_def)

text \<open>
  Claim C1, amended. When the target key and the value key of a merge action are two
  different keys of the aspect, with entries \<open>(ct, et)\<close> and \<open>(cv, ev)\<close>, the action
  returns normally, the target entry has confidence \<open>max ct cv\<close> and evidence
  \<open>et + ev\<close>, and the value key is no longer in the aspect's mapping.
\<close>

theorem merge_absorbs_value:
  assumes "act_action act = Some ''merge''"
    and "act_aspect act = Some asp" "asp \<noteq> []" "asp \<in> set aspects"
    and "act_value act = Some v" "v \<noteq> []"
    and "act_target act = Some t" "t \<noteq> []"
    and "lookup m asp (lower t) = Some te"
    and "lookup m asp (lower v) = Some ve"
    and "lower v \<noteq> lower t"
  shows "\<exists>m'. apply_actions aspects conf now [act] m = Inr m' \<and>
           lookup m' asp (lower t) =
             Some \<lparr>confidence = max (confidence te) (confidence ve),
                   evidence = evidence te + evidence ve, last_seen = now\<rparr> \<and>
           lookup m' asp (lower v) = None"
  using assms(11) merge_step [OF assms, of conf now]
  by (simp add: lookup_update update_conv' delete_conv')

theorem merge_absorbs_value_witness:
  "\<exists>m'. apply_actions example_aspects example_conf 7
           [(action ''merge'' ''cuisine'' ''Italian'')\<lparr>act_target := Some ''Mediterranean''\<rparr>]
           [(''cuisine'', [(''mediterranean'', \<lparr>confidence = 0.5, evidence = 2, last_seen = 0\<rparr>),
                           (''italian'', \<lparr>confidence = 0.8, evidence = 1, last_seen = 1\<rparr>)])] = Inr m' \<and>
         lookup m' ''cuisine'' ''mediterranean'' = Some \<lparr>confidence = 0.8, evidence = 3, last_seen = 7\<rparr> \<and>
         lookup m' ''cuisine'' ''italian'' = None"
  using merge_absorbs_value
    [of "(action ''merge'' ''cuisine'' ''Italian'')\<lparr>act_target := Some ''Mediterranean''\<rparr>"
        "''cuisine''" example_aspects "''Italian''" "''Mediterranean''"
        "[(''cuisine'', [(''mediterranean'', \<lparr>confidence = 0.5, evidence = 2, last_seen = 0\<rparr>),
                         (''italian'', \<lparr>confidence = 0.8, evidence = 1, last_seen = 1\<rparr>)])]"
        "\<lparr>confidence = 0.5, evidence = 2, last_seen = 0\<rparr>"
        "\<lparr>confidence = 0.8, evidence = 1, last_seen = 1\<rparr>" example_conf 7]
  by (simp add: action_def example_aspects_def lookup_def lower_def lower_char_def)

text \<open>
  Claim C2 says that a merge never deletes the target entry. A merge action whose value
  and target are the same present key deletes that entry and then raises \<open>KeyError\<close>
  at the last statement of the branch, which expects the target to be there.
\<close>

theorem merge_into_itself_deletes_target:
  "apply_actions example_aspects example_conf 7
     [(action ''merge'' ''cuisine'' ''Mediterranean'')\<lparr>act_target := Some ''mediterranean''\<rparr>]
     [(''cuisine'', [(''mediterranean'', \<lparr>confidence = 0.5, evidence = 2, last_seen = 0\<rparr>),
                     (''italian'', \<lparr>confidence = 0.8, evidence = 1, last_seen = 1\<rparr>)])]
   = Inl (KeyError ''mediterranean'',
          [(''cuisine'', [(''italian'', \<lparr>confidence = 0.8, evidence = 1, last_seen = 1\<rparr>)])]) \<and>
   lookup (final_memory (apply_actions example_aspects example_conf 7
     [(action ''merge'' ''cuisine'' ''Mediterranean'')\<lparr>act_target := Some ''mediterranean''\<rparr>]
     [(''cuisine'', [(''mediterranean'', \<lparr>confidence = 0.5, evidence = 2, last_seen = 0\<rparr>),
                     (''italian'', \<lparr>confidence = 0.8, evidence = 1, last_seen = 1\<rparr>)])]))
     ''cuisine'' ''mediterranean'' = None"
  by (simp add: apply_action_def action_def falsy_def example_aspects_def lower_def
        lower_char_def resolve_strength_def example_conf_def setdefault_def bucket_def
        dispatch_def merge_into_def final_memory_def lookup_def)

subsection \<open>Ingestion of an unknown strength label\<close>

text \<open>
  Claim C10 says that ingestion falls back to a default confidence for a strength label
  that is not a key of the table, as \<open>apply_actions\<close> does with \<open>.get(label, 0.6)\<close>.
  \<open>ingest_extracted_preferences\<close> subscripts the table: it raises \<open>KeyError\<close>, after
  \<open>setdefault\<close> has created the bucket of the aspect, and stores no entry.
\<close>

theorem ingest_unknown_strength_raises:
  "ingest_extracted_preferences example_conf (\<lambda>i. i)
     \<lparr>hard_preferences = Some [\<lparr>pref_aspect = Some ''cuisine'', pref_value = Some ''Thai'',
                                pref_strength = Some ''very strong''\<rparr>],
      soft_preferences = Some []\<rparr> []
   = Inl (KeyError ''very strong'', [(''cuisine'', [])])"
  by (simp add: ingest_extracted_preferences_def group_items_def ingest_pref_def
        example_conf_def setdefault_def lower_def lower_char_def)

subsection \<open>Evidence\<close>

lemma merge_into_evidence:
  assumes ok: "\<forall>k e. map_of b k = Some e \<longrightarrow> 1 \<le> evidence e"
    and b': "b' = final_memory (merge_into now val target b)"
  shows "(\<forall>k e'. map_of b' k = Some e' \<longrightarrow> 1 \<le> evidence e') \<and>
         (\<forall>k e e'. map_of b k = Some e \<and> map_of b' k = Some e' \<longrightarrow> evidence e \<le> evidence e')"
proof (cases "falsy target \<or> map_of b (lower (case target of None \<Rightarrow> [] | Some s \<Rightarrow> s)) = None")
  case True
  then have "b' = b"
    using b' by (auto simp add: merge_into_def final_memory_def Let_def)
  then show ?thesis using ok by auto
next
  case False
  define t where "t = lower (case target of None \<Rightarrow> [] | Some s \<Rightarrow> s)"
  from False obtain te where te: "map_of b t = Some te" and nf: "\<not> falsy target"
    by (auto simp add: t_def)
  have te1: "1 \<le> evidence te" using ok te by blast
  show ?thesis
  proof (cases "map_of b val")
    case None
    have "b' = AList.update t (te\<lparr>last_seen := now\<rparr>) b"
      using b' None te nf by (simp add: merge_into_def final_memory_def t_def)
    then have "map_of b' = (map_of b)(t \<mapsto> te\<lparr>last_seen := now\<rparr>)"
      by (simp add: update_conv')
    then show ?thesis using ok te by (auto split: if_splits)
  next
    case (Some ve)
    have ve1: "1 \<le> evidence ve" using ok Some by blast
    define te' where "te' = te\<lparr>confidence := max (confidence te) (confidence ve),
                                evidence := evidence te + evidence ve\<rparr>"
    define b3 where "b3 = AList.delete val (AList.update t te' b)"
    have m3: "map_of b3 = ((map_of b)(t \<mapsto> te'))(val := None)"
      by (simp add: b3_def update_conv' delete_conv')
    show ?thesis
    proof (cases "val = t")
      case True
      have "b' = b3"
        using b' Some te nf True
        by (simp add: merge_into_def final_memory_def t_def [symmetric] b3_def te'_def
              Let_def delete_conv')
      then have "map_of b' = (map_of b)(t := None)"
        using m3 True by simp
      then show ?thesis using ok by (auto split: if_splits)
    next
      case False
      have "b' = AList.update t (te'\<lparr>last_seen := now\<rparr>) b3"
        using b' Some te nf False
        by (simp add: merge_into_def final_memory_def t_def [symmetric] b3_def te'_def
              update_conv' delete_conv')
      then have "map_of b' = ((map_of b)(val := None))(t \<mapsto> te'\<lparr>last_seen := now\<rparr>)"
        using m3 False by (auto simp add: update_conv')
      moreover have "evidence (te'\<lparr>last_seen := now\<rparr>) = evidence te + evidence ve"
        by (simp add: te'_def)
      moreover have "1 \<le> evidence te + evidence ve" "evidence te \<le> evidence te + evidence ve"
        using te1 ve1 by simp_all
      ultimately show ?thesis using ok te by (auto split: if_splits)
    qed
  qed
qed

lemma dispatch_evidence:
  assumes ok: "\<forall>k e. map_of b k = Some e \<longrightarrow> 1 \<le> evidence e"
    and b': "b' = final_memory (dispatch s now a val target b)"
  shows "(\<forall>k e'. map_of b' k = Some e' \<longrightarrow> 1 \<le> evidence e') \<and>
         (\<forall>k e e'. map_of b k = Some e \<and> map_of b' k = Some e' \<longrightarrow> evidence e \<le> evidence e')"
proof -
  have rest: "dispatch s now a val target b = Inr b"
    if "\<not> (a = ''add'' \<and> map_of b val = None)"
      and "\<not> (a = ''reinforce'' \<and> map_of b val \<noteq> None)"
      and "\<not> (a = ''weaken'' \<and> map_of b val \<noteq> None)"
      and "a \<noteq> ''merge''"
    using that by (auto simp add: dispatch_def)
  consider
    (add) "a = ''add''" "map_of b val = None"
    | (reinforce) e where "a = ''reinforce''" "map_of b val = Some e"
    | (weaken) e where "a = ''weaken''" "map_of b val = Some e"
    | (merge) "a = ''merge''"
    | (other) "dispatch s now a val target b = Inr b"
    using rest by (metis not_None_eq)
  then show ?thesis
  proof cases
    case add
    then have "map_of b' = (map_of b)(val \<mapsto> \<lparr>confidence = s, evidence = 1, last_seen = now\<rparr>)"
      using b' by (simp add: dispatch_def final_memory_def update_conv')
    then show ?thesis using ok add by (auto split: if_splits)
  next
    case reinforce
    have e1: "1 \<le> evidence e" using ok reinforce by blast
    show ?thesis
    proof (cases "reinforce_confidence (confidence e) (evidence e) s")
      case (Inl err)
      then have "b' = b"
        using b' reinforce by (simp add: dispatch_def final_memory_def)
      then show ?thesis using ok by auto
    next
      case (Inr c)
      then have "map_of b' = (map_of b)(val \<mapsto>
          \<lparr>confidence = c, evidence = evidence e + 1, last_seen = now\<rparr>)"
        using b' reinforce by (simp add: dispatch_def final_memory_def update_conv')
      moreover have "0 \<le> evidence e" using e1 by simp
      ultimately show ?thesis using ok reinforce by (auto split: if_splits)
    qed
  next
    case weaken
    then have "map_of b' = (map_of b)(val \<mapsto>
        e\<lparr>confidence := weakened (confidence e), last_seen := now\<rparr>)"
      using b' by (simp add: dispatch_def final_memory_def update_conv')
    then show ?thesis using ok weaken by (auto split: if_splits)
  next
    case merge
    then have "b' = final_memory (merge_into now val target b)"
      using b' by (simp add: dispatch_def)
    from merge_into_evidence [OF ok this] show ?thesis .
  next
    case other
    then have "b' = b" using b' by (simp add: final_memory_def)
    then show ?thesis using ok by auto
  qed
qed

lemma evidence_ok_lookup:
  assumes "evidence_ok m" and "lookup m a k = Some e"
  shows "1 \<le> evidence e"
proof -
  from assms(2) obtain b where b: "map_of m a = Some b" "map_of b k = Some e"
    by (auto simp add: lookup_def split: option.splits)
  then have "(a, b) \<in> set m" "(k, e) \<in> set b"
    by (auto dest: map_of_SomeD)
  with assms(1) show ?thesis
    by (auto simp add: evidence_ok_def list_all_iff)
qed

lemma apply_action_final:
  "final_memory (apply_action aspects conf now act m) = m \<or>
   (\<exists>asp s a val. final_memory (apply_action aspects conf now act m) =
      AList.update asp
        (final_memory (dispatch s now a val (act_target act) (bucket m asp)))
        (setdefault asp [] m))"
proof (cases "apply_action aspects conf now act m = Inr m")
  case True
  then show ?thesis by (simp add: final_memory_def)
next
  case False
  then obtain a asp v where v: "act_action act = Some a" "a \<noteq> []" "act_aspect act = Some asp"
      "asp \<noteq> []" "asp \<in> set aspects" "act_value act = Some v" "v \<noteq> []"
    by (auto simp add: apply_action_def falsy_def split: option.splits if_splits)
  have "final_memory (apply_action aspects conf now act m) =
      AList.update asp
        (final_memory (dispatch (resolve_strength conf act) now a (lower v) (act_target act)
           (bucket m asp)))
        (setdefault asp [] m)"
    by (simp add: apply_action_valid [OF v] final_memory_def split: sum.splits prod.splits)
  then show ?thesis by blast
qed

lemma apply_action_evidence:
  assumes ok: "\<forall>a k e. lookup m a k = Some e \<longrightarrow> 1 \<le> evidence e"
    and m': "m' = final_memory (apply_action aspects conf now act m)"
  shows "(\<forall>a k e'. lookup m' a k = Some e' \<longrightarrow> 1 \<le> evidence e') \<and>
         (\<forall>a k e e'. lookup m a k = Some e \<and> lookup m' a k = Some e' \<longrightarrow>
            evidence e \<le> evidence e')"
proof -
  from apply_action_final [of aspects conf now act m]
  consider (same) "m' = m"
    | (upd) asp s a val where "m' = AList.update asp
        (final_memory (dispatch s now a val (act_target act) (bucket m asp)))
        (setdefault asp [] m)"
    using m' by auto
  then show ?thesis
  proof cases
    case same
    then show ?thesis using ok by auto
  next
    case upd
    define b' where "b' = final_memory (dispatch s now a val (act_target act) (bucket m asp))"
    have bok: "\<forall>k e. map_of (bucket m asp) k = Some e \<longrightarrow> 1 \<le> evidence e"
      using ok by (simp add: lookup_bucket)
    from dispatch_evidence [OF bok b'_def]
    have d1: "\<forall>k e'. map_of b' k = Some e' \<longrightarrow> 1 \<le> evidence e'"
      and d2: "\<forall>k e e'. map_of (bucket m asp) k = Some e \<and> map_of b' k = Some e' \<longrightarrow>
                 evidence e \<le> evidence e'"
      by blast+
    have l: "lookup m' x k = (if x = asp then map_of b' k else lookup m x k)" for x k
      using upd by (simp add: b'_def lookup_update)
    have d3: "\<forall>k e e'. lookup m asp k = Some e \<and> map_of b' k = Some e' \<longrightarrow>
                 evidence e \<le> evidence e'"
      using d2 by (simp add: lookup_bucket)
    show ?thesis
      using ok d1 d3 by (auto simp add: l split: if_splits)
  qed
qed

lemma evidence_monotone_trace:
  assumes "\<forall>a k e. lookup m a k = Some e \<longrightarrow> 1 \<le> evidence e"
    and "lookup m a k = Some e"
    and "\<forall>m' \<in> set (apply_trace aspects conf now acts m). lookup m' a k \<noteq> None"
    and "lookup (final_memory (apply_actions aspects conf now acts m)) a k = Some e'"
  shows "evidence e \<le> evidence e'"
  using assms
proof (induction acts arbitrary: m e)
  case Nil
  then show ?case by (simp add: final_memory_def)
next
  case (Cons act acts)
  define m1 where "m1 = final_memory (apply_action aspects conf now act m)"
  from apply_action_evidence [OF Cons.prems(1) m1_def]
  have ok1: "\<forall>a k e'. lookup m1 a k = Some e' \<longrightarrow> 1 \<le> evidence e'"
    and mono: "\<forall>a k e e'. lookup m a k = Some e \<and> lookup m1 a k = Some e' \<longrightarrow>
                 evidence e \<le> evidence e'"
    by blast+
  show ?case
  proof (cases "apply_action aspects conf now act m")
    case (Inl x)
    then have "final_memory (apply_actions aspects conf now (act # acts) m) = m1"
      by (simp add: m1_def)
    with Cons.prems(2,4) mono show ?thesis by auto
  next
    case (Inr m2)
    then have m2: "m2 = m1" by (simp add: m1_def final_memory_def)
    from Inr Cons.prems(3) have pres: "lookup m1 a k \<noteq> None"
      and rest: "\<forall>m' \<in> set (apply_trace aspects conf now acts m1). lookup m' a k \<noteq> None"
      by (simp_all add: m2)
    from pres obtain e1 where e1: "lookup m1 a k = Some e1" by auto
    from Inr Cons.prems(4)
    have fin: "lookup (final_memory (apply_actions aspects conf now acts m1)) a k = Some e'"
      by (simp add: m2)
    have "evidence e \<le> evidence e1" using mono Cons.prems(2) e1 by blast
    also have "evidence e1 \<le> evidence e'"
      by (rule Cons.IH [OF ok1 e1 rest fin])
    finally show ?thesis .
  qed
qed

text \<open>
  Claim C3 says that no operation of the store lowers the evidence of an entry that is
  present before and after it. Ingestion overwrites an existing entry with evidence 1:
  an entry with evidence 2 has evidence 1 after its value is ingested again.
\<close>

theorem ingest_resets_evidence_counterexample:
  "lookup [(''cuisine'', [(''italian'', \<lparr>confidence = 0.75, evidence = 2, last_seen = 7\<rparr>)])]
     ''cuisine'' ''italian'' = Some \<lparr>confidence = 0.75, evidence = 2, last_seen = 7\<rparr> \<and>
   ingest_extracted_preferences example_conf (\<lambda>i. 9 + i)
     \<lparr>hard_preferences = Some [\<lparr>pref_aspect = Some ''cuisine'', pref_value = Some ''Italian'',
                                pref_strength = Some ''strong''\<rparr>],
      soft_preferences = None\<rparr>
     [(''cuisine'', [(''italian'', \<lparr>confidence = 0.75, evidence = 2, last_seen = 7\<rparr>)])]
   = Inr [(''cuisine'', [(''italian'', \<lparr>confidence = 0.9, evidence = 1, last_seen = 9\<rparr>)])]"
  by (simp add: ingest_extracted_preferences_def group_items_def ingest_pref_def
        example_conf_def setdefault_def bucket_def lookup_def lower_def lower_char_def)

text \<open>
  Within one action list an entry can also be merged away and added again: it is present
  before and after the call, with evidence 1 after it.
\<close>

lemma readded_value_restarts:
  "lookup (final_memory (apply_actions example_aspects example_conf 7
      [(action ''merge'' ''cuisine'' ''Italian'')\<lparr>act_target := Some ''mediterranean''\<rparr>,
       action ''add'' ''cuisine'' ''italian'']
      [(''cuisine'', [(''mediterranean'', \<lparr>confidence = 0.5, evidence = 2, last_seen = 0\<rparr>),
                      (''italian'', \<lparr>confidence = 0.8, evidence = 3, last_seen = 1\<rparr>)])]))
     ''cuisine'' ''italian'' = Some \<lparr>confidence = 0.6, evidence = 1, last_seen = 7\<rparr>"
  by (simp add: apply_action_def action_def falsy_def example_aspects_def lower_def
        lower_char_def resolve_strength_def example_conf_def setdefault_def bucket_def
        dispatch_def merge_into_def lookup_def final_memory_def)

text \<open>
  Claim C3, amended. For \<open>apply_actions\<close> on a memory whose entries all have evidence
  at least one: an entry that is present before the call and after every record the
  loop processes has, in the memory the call leaves (also when it raises), an evidence
  that is at least its evidence before the call.
\<close>

theorem evidence_monotone_while_present:
  assumes "evidence_ok m"
    and "lookup m a k = Some e"
    and "\<forall>m' \<in> set (apply_trace aspects conf now acts m). lookup m' a k \<noteq> None"
    and "lookup (final_memory (apply_actions aspects conf now acts m)) a k = Some e'"
  shows "evidence e \<le> evidence e'"
proof -
  have "\<forall>a k e. lookup m a k = Some e \<longrightarrow> 1 \<le> evidence e"
    using assms(1) evidence_ok_lookup by blast
  from evidence_monotone_trace [OF this assms(2,3,4)] show ?thesis .
qed

theorem evidence_monotone_while_present_witness:
  "\<exists>e'. lookup (final_memory (apply_actions example_aspects example_conf 7
            [(action ''merge'' ''cuisine'' ''Italian'')\<lparr>act_target := Some ''mediterranean''\<rparr>,
             action ''add'' ''cuisine'' ''italian'',
             (action ''reinforce'' ''cuisine'' ''mediterranean'')\<lparr>act_strength := Some ''strong''\<rparr>]
            [(''cuisine'', [(''mediterranean'', \<lparr>confidence = 0.5, evidence = 2, last_seen = 0\<rparr>),
                            (''italian'', \<lparr>confidence = 0.8, evidence = 1, last_seen = 1\<rparr>)])]))
          ''cuisine'' ''mediterranean'' = Some e' \<and>
        evidence e' = 4 \<and>
        evidence \<lparr>confidence = 0.5, evidence = 2, last_seen = 0\<rparr> \<le> evidence e'"
proof -
  let ?m = "[(''cuisine'', [(''mediterranean'', \<lparr>confidence = 0.5, evidence = 2, last_seen = 0\<rparr>),
                            (''italian'', \<lparr>confidence = 0.8, evidence = 1, last_seen = 1\<rparr>)])]"
  let ?acts = "[(action ''merge'' ''cuisine'' ''Italian'')\<lparr>act_target := Some ''mediterranean''\<rparr>,
             action ''add'' ''cuisine'' ''italian'',
             (action ''reinforce'' ''cuisine'' ''mediterranean'')\<lparr>act_strength := Some ''strong''\<rparr>]"
  have ok: "evidence_ok ?m"
    by (simp add: evidence_ok_def)
  have before: "lookup ?m ''cuisine'' ''mediterranean'' =
      Some \<lparr>confidence = 0.5, evidence = 2, last_seen = 0\<rparr>"
    by (simp add: lookup_def)
  have rc: "reinforce_confidence (4 / 5) 3 (9 / 10) = Inr (7430939385161318 / 2 ^ 53)"
    by (simp add: reinforce_confidence_def round_double_def floor_log2_def
          round_half_even_def Let_def bitlen_numeral power_int_minus)
  have present: "\<forall>m' \<in> set (apply_trace example_aspects example_conf 7 ?acts ?m).
      lookup m' ''cuisine'' ''mediterranean'' \<noteq> None"
    by (simp add: apply_action_def action_def falsy_def example_aspects_def lower_def
          lower_char_def resolve_strength_def example_conf_def setdefault_def bucket_def
          dispatch_def merge_into_def lookup_def rc)
  have after: "lookup (final_memory (apply_actions example_aspects example_conf 7 ?acts ?m))
      ''cuisine'' ''mediterranean'' =
      Some \<lparr>confidence = 7430939385161318 / 2 ^ 53, evidence = 4, last_seen = 7\<rparr>"
    by (simp add: apply_action_def action_def falsy_def example_aspects_def lower_def
          lower_char_def resolve_strength_def example_conf_def setdefault_def bucket_def
          dispatch_def merge_into_def lookup_def final_memory_def rc)
  from evidence_monotone_while_present [OF ok before present after] after
  show ?thesis by simp
qed

subsection \<open>Ingesting a payload twice\<close>

lemma ingest_pref_well_formed:
  assumes "well_formed_pref conf p"
  obtains a v s c where "pref_aspect p = Some a" "pref_value p = Some v"
    "pref_strength p = Some s" "conf s = Some c"
    "ingest_pref conf now p m =
       Inr (AList.update a
              (AList.update (lower v) \<lparr>confidence = c, evidence = 1, last_seen = now\<rparr>
                 (bucket m a))
              (setdefault a [] m))"
proof -
  from assms obtain a v s c where f: "pref_aspect p = Some a" "pref_value p = Some v"
      "pref_strength p = Some s" "conf s = Some c"
    by (auto simp add: well_formed_pref_def split: option.splits)
  then have "ingest_pref conf now p m =
       Inr (AList.update a
              (AList.update (lower v) \<lparr>confidence = c, evidence = 1, last_seen = now\<rparr>
                 (bucket m a))
              (setdefault a [] m))"
    by (simp add: ingest_pref_def)
  with f show ?thesis by (rule that)
qed

lemma lookup_ingested:
  "lookup (AList.update a (AList.update k e (bucket m a)) (setdefault a [] m)) a' k' =
     (if a' = a \<and> k' = k then Some e else lookup m a' k')"
  by (auto simp add: lookup_update update_conv' lookup_bucket [of m a])

lemma ingest_prefs_last_write:
  assumes "list_all (well_formed_pref conf) ps"
  shows "\<exists>m'. ingest_prefs conf clock i ps m = Inr m' \<and>
           (\<forall>a k. map_option (\<lambda>e. (confidence e, evidence e)) (lookup m' a k) =
              (case last_write conf ps a k of
                 Some c \<Rightarrow> Some (c, 1)
               | None \<Rightarrow> map_option (\<lambda>e. (confidence e, evidence e)) (lookup m a k)))"
  using assms
proof (induction ps arbitrary: m i)
  case Nil
  then show ?case by simp
next
  case (Cons p ps)
  then have wp: "well_formed_pref conf p" and wps: "list_all (well_formed_pref conf) ps"
    by simp_all
  from wp obtain a v s c where f: "pref_aspect p = Some a" "pref_value p = Some v"
      "pref_strength p = Some s" "conf s = Some c"
    and step: "ingest_pref conf (clock i) p m =
       Inr (AList.update a
              (AList.update (lower v) \<lparr>confidence = c, evidence = 1, last_seen = clock i\<rparr>
                 (bucket m a))
              (setdefault a [] m))"
    by (rule ingest_pref_well_formed)
  define m1 where "m1 = AList.update a
              (AList.update (lower v) \<lparr>confidence = c, evidence = 1, last_seen = clock i\<rparr>
                 (bucket m a))
              (setdefault a [] m)"
  from Cons.IH [OF wps, of "Suc i" m1]
  obtain m' where m': "ingest_prefs conf clock (Suc i) ps m1 = Inr m'"
    and ch: "\<forall>a k. map_option (\<lambda>e. (confidence e, evidence e)) (lookup m' a k) =
              (case last_write conf ps a k of
                 Some c \<Rightarrow> Some (c, 1)
               | None \<Rightarrow> map_option (\<lambda>e. (confidence e, evidence e)) (lookup m1 a k))"
    by blast
  have l1: "lookup m1 a' k' =
      (if a' = a \<and> k' = lower v
       then Some \<lparr>confidence = c, evidence = 1, last_seen = clock i\<rparr>
       else lookup m a' k')" for a' k'
    by (simp add: m1_def lookup_ingested)
  have "ingest_prefs conf clock i (p # ps) m = Inr m'"
    using step m' by (simp add: m1_def)
  moreover have "map_option (\<lambda>e. (confidence e, evidence e)) (lookup m' a' k') =
              (case last_write conf (p # ps) a' k' of
                 Some c \<Rightarrow> Some (c, 1)
               | None \<Rightarrow> map_option (\<lambda>e. (confidence e, evidence e)) (lookup m a' k'))" for a' k'
    using ch [rule_format, of a' k'] f
    by (auto simp add: l1 split: option.splits)
  ultimately show ?case by blast
qed

lemma last_write_member:
  assumes "list_all (well_formed_pref conf) ps"
    and "p \<in> set ps" "pref_aspect p = Some a" "pref_value p = Some v"
  shows "last_write conf ps a (lower v) \<noteq> None"
  using assms
proof (induction ps)
  case Nil
  then show ?case by simp
next
  case (Cons q ps)
  show ?case
  proof (cases "last_write conf ps a (lower v)")
    case (Some c)
    then show ?thesis by simp
  next
    case None
    with Cons have "p = q" by auto
    with Cons.prems show ?thesis
      by (auto simp add: None well_formed_pref_def split: option.splits)
  qed
qed

lemma keys_of_update_same:
  "map_of m a = Some b \<Longrightarrow> map fst b' = map fst b \<Longrightarrow> keys_of (AList.update a b' m) = keys_of m"
  by (induction m) (auto simp add: keys_of_def split: if_splits)

lemma ingest_step_keys:
  assumes "lookup m a k \<noteq> None"
  shows "keys_of (AList.update a (AList.update k e (bucket m a)) (setdefault a [] m)) = keys_of m"
proof -
  from assms obtain b where b: "map_of m a = Some b" and k: "map_of b k \<noteq> None"
    by (auto simp add: lookup_def split: option.splits)
  from k have "k \<in> set (map fst b)"
    by (simp add: map_of_eq_None_iff)
  then have "map fst (AList.update k e b) = map fst b"
    by (simp add: update_keys)
  with b show ?thesis
    by (simp add: setdefault_def bucket_def keys_of_update_same)
qed

lemma ingest_prefs_keys:
  assumes "list_all (well_formed_pref conf) ps"
    and "\<forall>p \<in> set ps. \<forall>a v. pref_aspect p = Some a \<and> pref_value p = Some v \<longrightarrow>
           lookup m a (lower v) \<noteq> None"
    and "ingest_prefs conf clock i ps m = Inr m'"
  shows "keys_of m' = keys_of m"
  using assms
proof (induction ps arbitrary: m i)
  case Nil
  then show ?case by simp
next
  case (Cons p ps)
  then have wp: "well_formed_pref conf p" and wps: "list_all (well_formed_pref conf) ps"
    by simp_all
  from wp obtain a v s c where f: "pref_aspect p = Some a" "pref_value p = Some v"
      "pref_strength p = Some s" "conf s = Some c"
    and step: "ingest_pref conf (clock i) p m =
       Inr (AList.update a
              (AList.update (lower v) \<lparr>confidence = c, evidence = 1, last_seen = clock i\<rparr>
                 (bucket m a))
              (setdefault a [] m))"
    by (rule ingest_pref_well_formed)
  define m1 where "m1 = AList.update a
              (AList.update (lower v) \<lparr>confidence = c, evidence = 1, last_seen = clock i\<rparr>
                 (bucket m a))
              (setdefault a [] m)"
  have "lookup m a (lower v) \<noteq> None"
    using Cons.prems(2) f by simp
  then have k1: "keys_of m1 = keys_of m"
    unfolding m1_def by (rule ingest_step_keys)
  have pres: "\<forall>p \<in> set ps. \<forall>a v. pref_aspect p = Some a \<and> pref_value p = Some v \<longrightarrow>
           lookup m1 a (lower v) \<noteq> None"
    using Cons.prems(2) by (auto simp add: m1_def lookup_ingested)
  have rest: "ingest_prefs conf clock (Suc i) ps m1 = Inr m'"
    using Cons.prems(3) step by (simp add: m1_def)
  from Cons.IH [OF wps pres rest] k1 show ?case by simp
qed

text \<open>
  Claim C7. For a well-formed payload, two calls of \<open>ingest_extracted_preferences\<close> in
  a row with that payload (whatever the clock reads) both return normally. After each
  call every item's entry, under its aspect and lower-cased value, has evidence 1; and
  the second call changes no confidence, no evidence and no key of the memory, nor the
  order of the keys.
\<close>

theorem ingest_twice_overwrites:
  assumes "well_formed conf x"
  shows "\<exists>m1 m2. ingest_extracted_preferences conf clock1 x m = Inr m1 \<and>
           ingest_extracted_preferences conf clock2 x m1 = Inr m2 \<and>
           (\<forall>p a v. p \<in> set (group_items x) \<and> pref_aspect p = Some a \<and> pref_value p = Some v \<longrightarrow>
              map_option evidence (lookup m1 a (lower v)) = Some 1 \<and>
              map_option evidence (lookup m2 a (lower v)) = Some 1) \<and>
           (\<forall>a k. map_option confidence (lookup m2 a k) = map_option confidence (lookup m1 a k)) \<and>
           (\<forall>a k. map_option evidence (lookup m2 a k) = map_option evidence (lookup m1 a k)) \<and>
           keys_of m2 = keys_of m1"
proof -
  let ?ps = "group_items x"
  let ?ce = "\<lambda>m a k. map_option (\<lambda>e. (confidence e, evidence e)) (lookup m a k)"
  have wf: "list_all (well_formed_pref conf) ?ps"
    using assms by (simp add: well_formed_def)
  from ingest_prefs_last_write [OF wf, of clock1 0 m]
  obtain m1 where m1: "ingest_prefs conf clock1 0 ?ps m = Inr m1"
    and c1: "\<forall>a k. ?ce m1 a k =
              (case last_write conf ?ps a k of Some c \<Rightarrow> Some (c, 1) | None \<Rightarrow> ?ce m a k)"
    by blast
  from ingest_prefs_last_write [OF wf, of clock2 0 m1]
  obtain m2 where m2: "ingest_prefs conf clock2 0 ?ps m1 = Inr m2"
    and c2: "\<forall>a k. ?ce m2 a k =
              (case last_write conf ?ps a k of Some c \<Rightarrow> Some (c, 1) | None \<Rightarrow> ?ce m1 a k)"
    by blast
  have same: "?ce m2 a k = ?ce m1 a k" for a k
    using c1 [rule_format, of a k] c2 [rule_format, of a k]
    by (simp split: option.splits)
  have conf_same: "map_option confidence (lookup m2 a k) = map_option confidence (lookup m1 a k)"
    for a k
    using same [of a k] by (cases "lookup m2 a k"; cases "lookup m1 a k") simp_all
  have ev_same: "map_option evidence (lookup m2 a k) = map_option evidence (lookup m1 a k)"
    for a k
    using same [of a k] by (cases "lookup m2 a k"; cases "lookup m1 a k") simp_all
  have ev1: "map_option evidence (lookup m1 a (lower v)) = Some 1"
    if "p \<in> set ?ps" "pref_aspect p = Some a" "pref_value p = Some v" for p a v
  proof -
    from last_write_member [OF wf that]
    obtain c where "last_write conf ?ps a (lower v) = Some c" by auto
    with c1 [rule_format, of a "lower v"] have "?ce m1 a (lower v) = Some (c, 1)"
      by simp
    then show ?thesis by (cases "lookup m1 a (lower v)") simp_all
  qed
  have pres: "\<forall>p \<in> set ?ps. \<forall>a v. pref_aspect p = Some a \<and> pref_value p = Some v \<longrightarrow>
           lookup m1 a (lower v) \<noteq> None"
    using ev1 by fastforce
  have keys: "keys_of m2 = keys_of m1"
    by (rule ingest_prefs_keys [OF wf pres m2])
  have ev2: "map_option evidence (lookup m2 a (lower v)) = Some 1"
    if "p \<in> set ?ps" "pref_aspect p = Some a" "pref_value p = Some v" for p a v
    using ev1 [OF that] by (simp only: ev_same)
  have both: "\<forall>p a v. p \<in> set ?ps \<and> pref_aspect p = Some a \<and> pref_value p = Some v \<longrightarrow>
              map_option evidence (lookup m1 a (lower v)) = Some 1 \<and>
              map_option evidence (lookup m2 a (lower v)) = Some 1"
    using ev1 ev2 by blast
  have r1: "ingest_extracted_preferences conf clock1 x m = Inr m1"
    using m1 by (simp add: ingest_extracted_preferences_def)
  have r2: "ingest_extracted_preferences conf clock2 x m1 = Inr m2"
    using m2 by (simp add: ingest_extracted_preferences_def)
  from r1 r2 both conf_same ev_same keys show ?thesis by blast
qed

theorem ingest_twice_overwrites_witness:
  "\<exists>m1 m2.
     ingest_extracted_preferences example_conf (\<lambda>i. i)
       \<lparr>hard_preferences = Some [\<lparr>pref_aspect = Some ''cuisine'', pref_value = Some ''Italian'',
                                  pref_strength = Some ''strong''\<rparr>],
        soft_preferences = Some [\<lparr>pref_aspect = Some ''price'', pref_value = Some ''cheap'',
                                  pref_strength = Some ''weak''\<rparr>]\<rparr> [] = Inr m1 \<and>
     ingest_extracted_preferences example_conf (\<lambda>i. 10 + i)
       \<lparr>hard_preferences = Some [\<lparr>pref_aspect = Some ''cuisine'', pref_value = Some ''Italian'',
                                  pref_strength = Some ''strong''\<rparr>],
        soft_preferences = Some [\<lparr>pref_aspect = Some ''price'', pref_value = Some ''cheap'',
                                  pref_strength = Some ''weak''\<rparr>]\<rparr> m1 = Inr m2 \<and>
     map_option evidence (lookup m1 ''cuisine'' ''italian'') = Some 1 \<and>
     map_option evidence (lookup m2 ''cuisine'' ''italian'') = Some 1 \<and>
     keys_of m2 = keys_of m1"
proof -
  let ?x = "\<lparr>hard_preferences = Some [\<lparr>pref_aspect = Some ''cuisine'', pref_value = Some ''Italian'',
                                  pref_strength = Some ''strong''\<rparr>],
        soft_preferences = Some [\<lparr>pref_aspect = Some ''price'', pref_value = Some ''cheap'',
                                  pref_strength = Some ''weak''\<rparr>]\<rparr>"
  let ?p = "\<lparr>pref_aspect = Some ''cuisine'', pref_value = Some ''Italian'',
             pref_strength = Some ''strong''\<rparr>"
  have wf: "well_formed example_conf ?x"
    by (simp add: well_formed_def well_formed_pref_def group_items_def example_conf_def)
  have mem: "?p \<in> set (group_items ?x) \<and> pref_aspect ?p = Some ''cuisine'' \<and>
      pref_value ?p = Some ''Italian''"
    by (simp add: group_items_def)
  have low: "lower ''Italian'' = ''italian''"
    by (simp add: lower_def lower_char_def)
  from ingest_twice_overwrites [OF wf, of "\<lambda>i. i" "[]" "\<lambda>i. 10 + i"]
  obtain m1 m2 where
    r: "ingest_extracted_preferences example_conf (\<lambda>i. i) ?x [] = Inr m1"
       "ingest_extracted_preferences example_conf (\<lambda>i. 10 + i) ?x m1 = Inr m2"
    and ev: "\<forall>p a v. p \<in> set (group_items ?x) \<and> pref_aspect p = Some a \<and> pref_value p = Some v \<longrightarrow>
              map_option evidence (lookup m1 a (lower v)) = Some 1 \<and>
              map_option evidence (lookup m2 a (lower v)) = Some 1"
    and keys: "keys_of m2 = keys_of m1"
    by blast
  from ev mem have "map_option evidence (lookup m1 ''cuisine'' (lower ''Italian'')) = Some 1 \<and>
      map_option evidence (lookup m2 ''cuisine'' (lower ''Italian'')) = Some 1"
    by blast
  with r keys show ?thesis
    by (simp only: low) blast
qed

end
